theory Spec2Isabelle
  imports Main "HOL-Library.Word" "HOL-Library.Stream"
begin

section \<open>The bulk loader's chunkers and map stage (dgraph/cmd/bulk/loader.go)\<close>

subsection \<open>Errors\<close>

text \<open>
  The error values that reach the code of loader.go: the sentinels \<open>io.EOF\<close>,
  \<open>bufio.ErrBufferFull\<close> and \<open>bufio.ErrInvalidUnreadRune\<close>, the errors the chunkers
  build themselves (\<open>fmt.Errorf\<close> with the offending rune, \<open>errors.New\<close>), and any
  other error of the operating system or of a library, kept by its message.
  \<open>CheckFailed e\<close> stands for \<open>x.Check e\<close> stopping the process inside a function
  that otherwise returns an error to its caller.
\<close>

datatype error =
    EOF
  | ErrBufferFull
  | ErrInvalidUnreadRune
  | ErrMustContainArray nat
  | ErrExpectedMapStart nat
  | ErrMalformedJson
  | ErrNotAllConsumed
  | ErrOther string
  | CheckFailed error

subsection \<open>The buffered reader\<close>

text \<open>
  A \<open>*bufio.Reader\<close> over a finite stream. \<open>pending\<close> is the data not yet consumed
  (bytes for the RDF chunker, which uses \<open>ReadSlice\<close> and \<open>ReadString\<close>; code points
  for the JSON chunker, which uses \<open>ReadRune\<close>), \<open>lastRune\<close> is the rune that
  \<open>UnreadRune\<close> would push back (\<open>None\<close> when the last operation was not a
  successful \<open>ReadRune\<close>), \<open>bufSize\<close> is the capacity of the internal buffer and
  \<open>srcErr\<close> is the error the underlying \<open>io.Reader\<close> reports once its data is
  exhausted (\<open>EOF\<close> for a file that is read to its end).
\<close>

record 'a reader =
  pending :: "'a list"
  lastRune :: "'a option"
  bufSize :: nat
  srcErr :: error

type_synonym rune = nat

definition ReadRune :: "'a reader \<Rightarrow> (error + 'a) \<times> 'a reader" where
  "ReadRune b =
     (case pending b of
        [] \<Rightarrow> (Inl (srcErr b), b\<lparr>lastRune := None\<rparr>)
      | c # cs \<Rightarrow> (Inr c, b\<lparr>pending := cs, lastRune := Some c\<rparr>))"

definition UnreadRune :: "'a reader \<Rightarrow> error option \<times> 'a reader" where
  "UnreadRune b =
     (case lastRune b of
        None \<Rightarrow> (Some ErrInvalidUnreadRune, b)
      | Some c \<Rightarrow> (None, b\<lparr>pending := c # pending b, lastRune := None\<rparr>))"

text \<open>
  \<open>ReadSlice\<close> searches the buffer for the delimiter, filling it as long as it is not
  full: the line when the delimiter is among the first \<open>bufSize\<close> pending elements, all
  the pending data with the stream's error when the stream ends before the buffer is
  full, and otherwise the full buffer with \<open>ErrBufferFull\<close>. (When exactly \<open>bufSize\<close>
  elements without a delimiter are left, the buffer is full before the underlying reader
  has reported the end of the stream, as with a file.)
\<close>

definition ReadSlice :: "'a \<Rightarrow> 'a reader \<Rightarrow> 'a list \<times> error option \<times> 'a reader" where
  "ReadSlice delim b =
     (let xs = pending b; n = bufSize b; line = takeWhile (\<lambda>c. c \<noteq> delim) xs in
      if length line < length xs \<and> length line < n then
        (take (Suc (length line)) xs, None,
         b\<lparr>pending := drop (Suc (length line)) xs, lastRune := None\<rparr>)
      else if length xs < n then
        (xs, Some (srcErr b), b\<lparr>pending := [], lastRune := None\<rparr>)
      else
        (take n xs, Some ErrBufferFull, b\<lparr>pending := drop n xs, lastRune := None\<rparr>))"

text \<open>
  \<open>ReadString\<close> reads without a bound on the length: up to and including the first
  delimiter, or all the pending data with the stream's error when there is none.
\<close>

definition ReadString :: "'a \<Rightarrow> 'a reader \<Rightarrow> 'a list \<times> error option \<times> 'a reader" where
  "ReadString delim b =
     (let xs = pending b; line = takeWhile (\<lambda>c. c \<noteq> delim) xs in
      if length line < length xs then
        (take (Suc (length line)) xs, None,
         b\<lparr>pending := drop (Suc (length line)) xs, lastRune := None\<rparr>)
      else
        (xs, Some (srcErr b), b\<lparr>pending := [], lastRune := None\<rparr>))"

subsection \<open>The RDF chunker\<close>

definition nl :: char where
  "nl = CHR 0x0A"

definition rdfChunker_begin :: "char reader \<Rightarrow> error option \<times> char reader" where
  "rdfChunker_begin r = (None, r)"

text \<open>
  The loop of \<open>rdfChunker.chunk\<close>, from the iteration with counter \<open>lineCount\<close> on;
  \<open>batch\<close> is what has been written to the buffer so far. The result is the returned
  buffer (\<open>None\<close> for \<open>nil\<close>), the returned error and the reader afterwards.
\<close>

function rdfChunker_loop ::
  "nat \<Rightarrow> char reader \<Rightarrow> char list \<Rightarrow> char list option \<times> error option \<times> char reader" where
  "rdfChunker_loop lineCount r batch =
     (if lineCount < 100000 then
        (case ReadSlice nl r of (slc, err, r1) \<Rightarrow>
           if err = Some EOF then (Some (batch @ slc), err, r1)
           else if err = Some ErrBufferFull then
             (case ReadString nl r1 of (str, err2, r2) \<Rightarrow>
                if err2 = Some EOF then (Some (batch @ slc @ str), err2, r2)
                else if err2 \<noteq> None then (None, err2, r2)
                else rdfChunker_loop (lineCount + 1) r2 (batch @ slc @ str))
           else if err \<noteq> None then (None, err, r1)
           else rdfChunker_loop (lineCount + 1) r1 (batch @ slc))
      else (Some batch, None, r))"
  by pat_completeness auto
termination
  by (relation "measure (\<lambda>(lineCount, r, batch). 100000 - lineCount)") auto

declare rdfChunker_loop.simps [simp del]

definition rdfChunker_chunk ::
  "char reader \<Rightarrow> char list option \<times> error option \<times> char reader" where
  "rdfChunker_chunk r = rdfChunker_loop 0 r []"

definition rdfChunker_end :: "char reader \<Rightarrow> error option \<times> char reader" where
  "rdfChunker_end r = (None, r)"

subsection \<open>The JSON chunker\<close>

text \<open>
  The JSON chunker reads and writes runes: its reader holds the code points that
  \<open>ReadRune\<close> decodes from the stream, and its buffer the code points that
  \<open>WriteRune\<close> encodes (\<open>WriteRune\<close> on a \<open>bytes.Buffer\<close> returns no error, so
  \<open>x.Check2\<close> around it never stops the process). The depth counter is a Go \<open>int\<close>;
  it would take more than \<open>2^63\<close> opening braces to overflow it, so it is an
  \<open>int\<close> here. \<open>IsSpace\<close> is \<open>unicode.IsSpace\<close>: in Latin-1 the characters tab,
  line feed, vertical tab, form feed, carriage return, space, U+0085 and U+00A0, and
  beyond Latin-1 the code points of the White_Space table.
\<close>

abbreviation (input) quote :: rune where "quote \<equiv> 34"
abbreviation (input) comma :: rune where "comma \<equiv> 44"
abbreviation (input) lbracket :: rune where "lbracket \<equiv> 91"
abbreviation (input) backslash :: rune where "backslash \<equiv> 92"
abbreviation (input) rbracket :: rune where "rbracket \<equiv> 93"
abbreviation (input) lbrace :: rune where "lbrace \<equiv> 123"
abbreviation (input) rbrace :: rune where "rbrace \<equiv> 125"

definition IsSpace :: "rune \<Rightarrow> bool" where
  "IsSpace r =
     (if r \<le> 0xFF then
        r = 9 \<or> r = 10 \<or> r = 11 \<or> r = 12 \<or> r = 13 \<or> r = 32 \<or> r = 0x85 \<or> r = 0xA0
      else
        r = 0x1680 \<or> (0x2000 \<le> r \<and> r \<le> 0x200A) \<or> r = 0x2028 \<or> r = 0x2029 \<or>
        r = 0x202F \<or> r = 0x205F \<or> r = 0x3000)"

lemma ReadRune_shorter:
  "ReadRune r = (Inr ch, r1) \<Longrightarrow> length (pending r1) < length (pending r)"
  by (auto simp: ReadRune_def split: list.splits)

lemma ReadRune_not_longer:
  "ReadRune r = (res, r1) \<Longrightarrow> length (pending r1) \<le> length (pending r)"
  by (auto simp: ReadRune_def split: list.splits)

function slurpSpace :: "rune reader \<Rightarrow> error option \<times> rune reader" where
  "slurpSpace r =
     (case ReadRune r of
        (Inl err, r1) \<Rightarrow> (Some err, r1)
      | (Inr ch, r1) \<Rightarrow>
          if \<not> IsSpace ch then (None, snd (UnreadRune r1))
          else slurpSpace r1)"
  by pat_completeness auto
termination
  by (relation "measure (\<lambda>r. length (pending r))")
     (auto dest: ReadRune_shorter [OF sym])

declare slurpSpace.simps [simp del]

text \<open>
  \<open>slurpQuoted\<close> copies runes to \<open>out\<close> up to and including the closing quote; a
  backslash takes one more rune with it. The result is the error, the reader and the
  buffer afterwards.
\<close>

function slurpQuoted ::
  "rune reader \<Rightarrow> rune list \<Rightarrow> error option \<times> rune reader \<times> rune list" where
  "slurpQuoted r out =
     (case ReadRune r of
        (Inl err, r1) \<Rightarrow> (Some err, r1, out)
      | (Inr ch, r1) \<Rightarrow>
          if ch = backslash then
            (case ReadRune r1 of
               (Inl err, r2) \<Rightarrow> (Some err, r2, out @ [ch])
             | (Inr esc, r2) \<Rightarrow> slurpQuoted r2 (out @ [ch] @ [esc]))
          else if ch = quote then (None, r1, out @ [ch])
          else slurpQuoted r1 (out @ [ch]))"
  by pat_completeness auto
termination
  by (relation "measure (\<lambda>(r, out). length (pending r))")
     (auto dest!: ReadRune_shorter [OF sym])

declare slurpQuoted.simps [simp del]

lemma slurpQuoted_not_longer:
  "slurpQuoted r out = (e, r', out') \<Longrightarrow> length (pending r') \<le> length (pending r)"
proof (induction r out arbitrary: e r' out' rule: slurpQuoted.induct)
  case (1 r out)
  show ?case
  proof (cases "ReadRune r")
    case (Pair res r1)
    note rr = this
    show ?thesis
    proof (cases res)
      case (Inl err)
      with rr "1.prems" have "r' = r1"
        by (simp add: slurpQuoted.simps [of r])
      with rr show ?thesis by (simp add: ReadRune_not_longer)
    next
      case (Inr ch)
      note ch = this
      from rr ch have lt: "length (pending r1) < length (pending r)"
        by (simp add: ReadRune_shorter)
      show ?thesis
      proof (cases "ch = backslash")
        case True
        show ?thesis
        proof (cases "ReadRune r1")
          case (Pair res2 r2)
          note rr2 = this
          from rr2 have le2: "length (pending r2) \<le> length (pending r1)"
            by (rule ReadRune_not_longer)
          show ?thesis
          proof (cases res2)
            case (Inl err)
            with rr ch True rr2 "1.prems" have "r' = r2"
              by (simp add: slurpQuoted.simps [of r])
            with le2 lt show ?thesis by simp
          next
            case (Inr esc)
            with rr ch True rr2 "1.prems"
            have "slurpQuoted r2 (out @ [ch] @ [esc]) = (e, r', out')"
              by (simp add: slurpQuoted.simps [of r])
            with "1.IH"(1) [OF rr [symmetric, unfolded ch] refl True rr2 [symmetric, unfolded Inr] refl]
            have "length (pending r') \<le> length (pending r2)" by simp
            with le2 lt show ?thesis by simp
          qed
        qed
      next
        case False
        note nb = this
        show ?thesis
        proof (cases "ch = quote")
          case True
          with rr ch nb "1.prems" have "r' = r1"
            by (simp add: slurpQuoted.simps [of r])
          with lt show ?thesis by simp
        next
          case False
          with rr ch nb "1.prems" have "slurpQuoted r1 (out @ [ch]) = (e, r', out')"
            by (simp add: slurpQuoted.simps [of r])
          with "1.IH"(2) [OF rr [symmetric, unfolded ch] refl nb False]
          have "length (pending r') \<le> length (pending r1)" by simp
          with lt show ?thesis by simp
        qed
      qed
    qed
  qed
qed

text \<open>
  The loop \<open>for depth > 0\<close> of \<open>jsonChunker.chunk\<close>. Any error of \<open>ReadRune\<close>
  becomes "malformed json"; an error of \<open>slurpQuoted\<close> is returned as it is.
\<close>

function jsonChunker_depthLoop ::
  "int \<Rightarrow> rune reader \<Rightarrow> rune list \<Rightarrow> error option \<times> rune reader \<times> rune list" where
  "jsonChunker_depthLoop depth r out =
     (if depth > 0 then
        (case ReadRune r of
           (Inl err, r1) \<Rightarrow> (Some ErrMalformedJson, r1, out)
         | (Inr ch, r1) \<Rightarrow>
             if ch = lbrace then jsonChunker_depthLoop (depth + 1) r1 (out @ [ch])
             else if ch = rbrace then jsonChunker_depthLoop (depth - 1) r1 (out @ [ch])
             else if ch = quote then
               (case slurpQuoted r1 (out @ [ch]) of
                  (Some err, r2, out2) \<Rightarrow> (Some err, r2, out2)
                | (None, r2, out2) \<Rightarrow> jsonChunker_depthLoop depth r2 out2)
             else jsonChunker_depthLoop depth r1 (out @ [ch]))
      else (None, r, out))"
  by pat_completeness auto
termination
  by (relation "measure (\<lambda>(depth, r, out). length (pending r))")
     (auto dest!: ReadRune_shorter [OF sym] slurpQuoted_not_longer [OF sym])

declare jsonChunker_depthLoop.simps [simp del]

definition jsonChunker_begin :: "rune reader \<Rightarrow> error option \<times> rune reader" where
  "jsonChunker_begin r =
     (case slurpSpace r of
        (Some err, r1) \<Rightarrow> (Some err, r1)
      | (None, r1) \<Rightarrow>
          (case ReadRune r1 of
             (Inl err, r2) \<Rightarrow> (Some err, r2)
           | (Inr ch, r2) \<Rightarrow>
               if ch \<noteq> lbracket then (Some (ErrMustContainArray ch), r2)
               else (None, r2)))"

definition jsonChunker_chunk ::
  "rune reader \<Rightarrow> rune list option \<times> error option \<times> rune reader" where
  "jsonChunker_chunk r =
     (case slurpSpace r of
        (Some err, r1) \<Rightarrow> (Some [], Some err, r1)
      | (None, r1) \<Rightarrow>
          (case ReadRune r1 of
             (Inl err, r2) \<Rightarrow> (Some [], Some err, r2)
           | (Inr ch, r2) \<Rightarrow>
               if ch \<noteq> lbrace then (None, Some (ErrExpectedMapStart ch), r2)
               else
                 (case jsonChunker_depthLoop 1 r2 [ch] of
                    (Some err, r3, out) \<Rightarrow> (None, Some err, r3)
                  | (None, r3, out) \<Rightarrow>
                      (case slurpSpace r3 of
                         (Some err, r4) \<Rightarrow> (None, Some err, r4)
                       | (None, r4) \<Rightarrow>
                           (case ReadRune r4 of
                              (Inl err, r5) \<Rightarrow> (None, Some err, r5)
                            | (Inr ch2, r5) \<Rightarrow>
                                if ch2 = rbracket then (Some out, Some EOF, r5)
                                else if ch2 = comma then (Some out, None, r5)
                                else
                                  (case UnreadRune r5 of
                                     (Some err, r6) \<Rightarrow> (None, Some (CheckFailed err), r6)
                                   | (None, r6) \<Rightarrow> (Some out, None, r6)))))))"

definition jsonChunker_end :: "rune reader \<Rightarrow> error option \<times> rune reader" where
  "jsonChunker_end r =
     (case slurpSpace r of
        (err, r1) \<Rightarrow>
          if err = Some EOF then (None, r1) else (Some ErrNotAllConsumed, r1))"

subsection \<open>The chunker interface and the reader goroutine of the map stage\<close>

text \<open>
  The interface \<open>chunker\<close> is its method table. The two implementations read different
  units (bytes, runes), so the table is polymorphic in the unit.
\<close>

record 'a chunker =
  chunker_begin :: "'a reader \<Rightarrow> error option \<times> 'a reader"
  chunker_chunk :: "'a reader \<Rightarrow> 'a list option \<times> error option \<times> 'a reader"
  chunker_end :: "'a reader \<Rightarrow> error option \<times> 'a reader"

definition rdfChunker :: "char chunker" where
  "rdfChunker =
     \<lparr>chunker_begin = rdfChunker_begin, chunker_chunk = rdfChunker_chunk,
      chunker_end = rdfChunker_end\<rparr>"

definition jsonChunker :: "rune chunker" where
  "jsonChunker =
     \<lparr>chunker_begin = jsonChunker_begin, chunker_chunk = jsonChunker_chunk,
      chunker_end = jsonChunker_end\<rparr>"

text \<open>
  The loop of the goroutine that \<open>mapStage\<close> starts for one file: every non-nil,
  non-empty buffer is sent on \<open>readerChunkCh\<close> (\<open>sent\<close> is what this goroutine has
  sent so far, in order), \<open>EOF\<close> leaves the loop, any other error is fatal. The loop
  has no bound of its own, so it is a partial function: \<open>None\<close> is a loop that never
  ends. The result is the chunks sent, the fatal error if any, and the reader.
\<close>

partial_function (option) mapStage_readLoop ::
  "'a chunker \<Rightarrow> 'a reader \<Rightarrow> 'a list list \<Rightarrow> ('a list list \<times> error option \<times> 'a reader) option"
  where
  "mapStage_readLoop chunker r sent =
     (case chunker_chunk chunker r of
        (chunkBuf, err, r1) \<Rightarrow>
          let sent1 =
            (case chunkBuf of
               None \<Rightarrow> sent
             | Some buf \<Rightarrow> if length buf > 0 then sent @ [buf] else sent)
          in
            if err = Some EOF then Some (sent1, None, r1)
            else
              (case err of
                 Some e \<Rightarrow> Some (sent1, Some e, r1)
               | None \<Rightarrow> mapStage_readLoop chunker r1 sent1))"

datatype outcome = Done | Fatal error

text \<open>
  The goroutine's body: \<open>begin\<close>, the loop, \<open>end\<close>, each error checked with
  \<open>x.Check\<close>. The result is the chunks sent and whether the goroutine finished or
  stopped the process.
\<close>

definition mapStage_reader :: "'a chunker \<Rightarrow> 'a reader \<Rightarrow> ('a list list \<times> outcome) option" where
  "mapStage_reader chunker r =
     (case chunker_begin chunker r of
        (Some e, r0) \<Rightarrow> Some ([], Fatal e)
      | (None, r0) \<Rightarrow>
          (case mapStage_readLoop chunker r0 [] of
             None \<Rightarrow> None
           | Some (sent, Some e, r1) \<Rightarrow> Some (sent, Fatal e)
           | Some (sent, None, r1) \<Rightarrow>
               (case chunker_end chunker r1 of
                  (Some e, r2) \<Rightarrow> Some (sent, Fatal e)
                | (None, r2) \<Rightarrow> Some (sent, Done))))"

subsection \<open>Processes, events and the world outside\<close>

text \<open>
  What a run does outside its own memory is recorded as a list of events, in the order
  in which the goroutine that runs the function performs them. Durations are
  \<open>time.Duration\<close> values, in nanoseconds. \<open>Timestamps d n\<close> is the call of the
  authority for \<open>n\<close> timestamps under a context with timeout \<open>d\<close>, \<open>Printf\<close> carries
  the format string, \<open>GoMapper\<close>, \<open>GoReader\<close>, \<open>GoShuffler\<close> and \<open>GoProgReport\<close>
  are \<open>go\<close> statements. \<open>x.Check\<close> and \<open>x.Checkf\<close> with an error log it and exit with status 1
  (\<open>log.Fatalf\<close>).
\<close>

datatype event =
    Printf string
  | LogFatal error
  | OsExit int
  | Panic string
  | GrpcDial string
  | Timestamps nat "64 word"
  | Sleep nat
  | ReadSchema string
  | GoProgReport
  | SetPhase string
  | Mkdir string
  | BadgerOpen string
  | XidmapNew
  | FilepathWalk string
  | OsOpen string
  | GzipNewReader string
  | GoMapper nat
  | ThrottleStart
  | GoReader string
  | ThrottleWait
  | CloseReaderChunkCh
  | MapperWgWait
  | EvictAll
  | XidDBClose
  | RuntimeGC
  | FileClose string
  | GoShuffler
  | ReducerRun
  | SchemaWrite string
  | DbClose string
  | EndSummary

definition Second :: nat where
  "Second = 1000000000"

definition Check :: "error \<Rightarrow> event list" where
  "Check err = [LogFatal err, OsExit 1]"

record assignedIds =
  StartId :: "64 word"
  EndId :: "64 word"

text \<open>
  The world a run meets: the answer of each system or library call that loader.go makes.
  \<open>zero\<close> is the remote authority seen through the connection: its answers to the
  successive \<open>Timestamps\<close> calls, an error standing also for an attempt that ran into
  its timeout. \<open>walk dir\<close> lists, in order, the paths \<open>filepath.Walk\<close> visits under
  \<open>dir\<close>, each with the error it passes to the callback. \<open>mapFiles\<close> and
  \<open>reduceDbs\<close> are what the mappers and the reducer, which are not in this file, do to
  the shared state (see \<open>mapStage_after\<close> and \<open>reduceStage_after\<close>).
\<close>

record world =
  dial :: "string \<Rightarrow> error option"
  zero :: "(error + assignedIds) stream"
  readSchemaErr :: "string \<Rightarrow> error option"
  mkdir :: "string \<Rightarrow> error option"
  badgerOpen :: "string \<Rightarrow> error option"
  walk :: "string \<Rightarrow> (string \<times> error option) list"
  osOpen :: "string \<Rightarrow> error option"
  gzipNewReader :: "string \<Rightarrow> error option"
  xidDBClose :: "error option"
  mapFiles :: "32 word"
  reduceDbs :: "string list"
  dbClose :: "string \<Rightarrow> error option"

subsection \<open>The loader and the write timestamp\<close>

record options =
  RDFDir :: string
  JSONDir :: string
  SchemaFile :: string
  DgraphsDir :: string
  TmpDir :: string
  NumGoroutines :: int
  MapBufSize :: int
  ExpandEdges :: bool
  SkipMapPhase :: bool
  CleanupTmp :: bool
  NumShufflers :: int
  Version :: bool
  StoreXids :: bool
  ZeroAddr :: string
  HttpAddr :: string
  IgnoreErrors :: bool
  MapShards :: int
  ReduceShards :: int
  shardOutputDirs :: "string list"

text \<open>
  Of \<open>state\<close> and \<open>loader\<close> the fields whose values loader.go itself computes or
  assigns after the construction: the options, the capacity of \<open>readerChunkCh\<close>,
  \<open>mapFileId\<close>, \<open>writeTs\<close>, whether \<open>xids\<close> is set, the file the \<open>schema\<close> store was
  read from (\<open>None\<close> for \<open>nil\<close>), the open stores \<open>dbs\<close> by name, the number of mappers
  and the directory of \<open>xidDB\<close> (\<open>None\<close> for \<open>nil\<close>). The other fields (\<open>prog\<close>,
  \<open>shards\<close>, \<open>zero\<close>) are handles set once in \<open>newLoader\<close>.
\<close>

record state =
  opt :: options
  readerChunkCh :: int
  mapFileId :: "32 word"
  writeTs :: "64 word"
  xids :: bool
  schema :: "string option"
  dbs :: "string list"

record loader =
  st :: state
  mappers :: nat
  xidDB :: "string option"

text \<open>
  \<open>getWriteTimestamp\<close>: the loop \<open>for { ... }\<close> has no exit but the successful call,
  so it is a partial function. Each attempt is a \<open>Timestamps\<close> call for one timestamp
  under a context with a timeout of one second; after a failed attempt the error is
  printed and the goroutine sleeps one second. The result is the start id, the
  authority's remaining answers and the events, appended to \<open>tr\<close>.
\<close>

partial_function (option) getWriteTimestamp ::
  "(error + assignedIds) stream \<Rightarrow> event list \<Rightarrow>
     (64 word \<times> (error + assignedIds) stream \<times> event list) option" where
  "getWriteTimestamp client tr =
     (case shd client of
        Inr ts \<Rightarrow> Some (StartId ts, stl client, tr @ [Timestamps Second 1])
      | Inl err \<Rightarrow>
          getWriteTimestamp (stl client)
            (tr @ [Timestamps Second 1,
                   Printf ''Error communicating with dgraph zero, retrying: %v'',
                   Sleep Second]))"

text \<open>
  \<open>newLoader\<close>: dials the authority (a failure is fatal), builds the state, whose
  \<open>writeTs\<close> is the result of \<open>getWriteTimestamp\<close>, reads the schema (a failure is
  fatal) and assigns the schema store to \<open>st.schema\<close>, makes one mapper per goroutine and
  starts the progress reporter. \<open>make\<close> with
  a negative size panics. The result is \<open>None\<close> when \<open>getWriteTimestamp\<close> never
  returns, and otherwise the loader (or nothing, when the process stopped) with the events.
\<close>

definition newLoader :: "world \<Rightarrow> options \<Rightarrow> (loader option \<times> event list) option" where
  "newLoader w opts =
     (let t0 = [Printf ''Connecting to zero at %s\<newline>'', GrpcDial (ZeroAddr opts)] in
      case dial w (ZeroAddr opts) of
        Some err \<Rightarrow> Some (None, t0 @ Check err)
      | None \<Rightarrow>
          if NumGoroutines opts < 0 then
            Some (None, t0 @ [Panic ''makechan: size out of range''])
          else
            (case getWriteTimestamp (zero w) t0 of
               None \<Rightarrow> None
             | Some (ts, client, t1) \<Rightarrow>
                 let s = \<lparr>opt = opts, readerChunkCh = NumGoroutines opts, mapFileId = 0,
                          writeTs = ts, xids = False, schema = None, dbs = []\<rparr>;
                     t2 = t1 @ [ReadSchema (SchemaFile opts)]
                 in
                   (case readSchemaErr w (SchemaFile opts) of
                      Some err \<Rightarrow> Some (None, t2 @ Check err)
                    | None \<Rightarrow>
                        Some (Some \<lparr>st = s\<lparr>schema := Some (SchemaFile opts)\<rparr>,
                                    mappers = nat (NumGoroutines opts), xidDB = None\<rparr>,
                              t2 @ [GoProgReport]))))"

subsection \<open>File discovery and the map stage\<close>

definition HasSuffix :: "string \<Rightarrow> string \<Rightarrow> bool" where
  "HasSuffix s suffix =
     (length suffix \<le> length s \<and> drop (length s - length suffix) s = suffix)"

text \<open>
  \<open>filepath.Walk\<close> calls the function on every visited path and stops at the first
  error it returns; the function threads the variables it captures (\<open>'s\<close>).
\<close>

fun Walk ::
  "(string \<times> error option) list \<Rightarrow> (string \<Rightarrow> error option \<Rightarrow> 's \<Rightarrow> error option \<times> 's) \<Rightarrow> 's \<Rightarrow>
     error option \<times> 's" where
  "Walk [] fn s = (None, s)"
| "Walk ((path, err) # visits) fn s =
     (case fn path err s of
        (Some e, s1) \<Rightarrow> (Some e, s1)
      | (None, s1) \<Rightarrow> Walk visits fn s1)"

text \<open>\<open>findDataFiles\<close>: \<open>Inl\<close> is the error that \<open>x.Check\<close> stops the process with.\<close>

definition findDataFiles :: "world \<Rightarrow> string \<Rightarrow> string \<Rightarrow> error + string list" where
  "findDataFiles w dir ext =
     (case Walk (walk w dir)
             (\<lambda>path err files.
                if err \<noteq> None then (err, files)
                else if HasSuffix path ext \<or> HasSuffix path (ext @ ''.gz'')
                  then (None, files @ [path])
                  else (None, files))
             [] of
        (Some e, files) \<Rightarrow> Inl e
      | (None, files) \<Rightarrow> Inr files)"

text \<open>
  The loop of \<open>mapStage\<close> that opens the files: the events, the error that stopped the
  process if any, and the keys of the map \<open>readers\<close> in the order of their insertion.
\<close>

fun openReaders :: "world \<Rightarrow> string list \<Rightarrow> string list \<Rightarrow> event list \<times> error option \<times> string list"
  where
  "openReaders w [] readers = ([], None, readers)"
| "openReaders w (file # files) readers =
     (case osOpen w file of
        Some err \<Rightarrow> ([OsOpen file], Some err, readers)
      | None \<Rightarrow>
          if \<not> HasSuffix file ''.gz'' then
            (case openReaders w files (if file \<in> set readers then readers else readers @ [file]) of
               (tr, res) \<Rightarrow> (OsOpen file # tr, res))
          else
            (case gzipNewReader w file of
               Some err \<Rightarrow> ([OsOpen file, GzipNewReader file], Some err, readers)
             | None \<Rightarrow>
                 (case openReaders w files (if file \<in> set readers then readers else readers @ [file]) of
                    (tr, res) \<Rightarrow> (OsOpen file # GzipNewReader file # tr, res))))"

text \<open>
  \<open>mapStage\<close>, as the events of the goroutine that runs it. From the first \<open>go\<close>
  statement on, the mappers and the readers run beside it; their own events are not
  part of this list (one reader's are \<open>mapStage_reader\<close>), and the list goes on as if
  none of them stopped the process. \<open>range\<close> over the map \<open>readers\<close> has no fixed
  order; the list takes the keys in the order of their insertion. \<open>filepath.Join\<close>
  of the temporary directory and "xids" is written as the two joined by a slash.
\<close>

definition mapStage :: "world \<Rightarrow> loader \<Rightarrow> event list" where
  "mapStage w ld =
     (let opts = opt (st ld);
          nmappers = mappers ld;
          xidDir = TmpDir opts @ ''/xids'';
          t0 = [SetPhase ''mapPhase'', Mkdir xidDir]
      in
      case mkdir w xidDir of
        Some err \<Rightarrow> t0 @ Check err
      | None \<Rightarrow>
          (case badgerOpen w xidDir of
             Some err \<Rightarrow> t0 @ [BadgerOpen xidDir] @ Check err
           | None \<Rightarrow>
               let t1 = t0 @ [BadgerOpen xidDir, XidmapNew];
                   ext = (if RDFDir opts \<noteq> [] then ''.rdf'' else ''.json'');
                   dir = (if RDFDir opts \<noteq> [] then RDFDir opts else JSONDir opts);
                   t2 = t1 @ [FilepathWalk dir]
               in
               (case findDataFiles w dir ext of
                  Inl err \<Rightarrow> t2 @ Check err
                | Inr files \<Rightarrow>
                    (case openReaders w files [] of
                       (t3, Some err, readers) \<Rightarrow> t2 @ t3 @ Check err
                     | (t3, None, readers) \<Rightarrow>
                         if length readers = 0 then
                           t2 @ t3 @ [Printf ''No *%s files found.\<newline>'', OsExit 1]
                         else
                           t2 @ t3 @ map GoMapper [0..<nmappers] @
                           concat (map (\<lambda>file.
                                     [ThrottleStart,
                                      Printf ''Processing file (%d out of %d): %s\<newline>'',
                                      GoReader file]) readers) @
                           [ThrottleWait, CloseReaderChunkCh, MapperWgWait, EvictAll,
                            XidDBClose] @
                           (case xidDBClose w of
                              Some err \<Rightarrow> Check err
                            | None \<Rightarrow> RuntimeGC # map FileClose (rev files))))))"

definition starts_goroutine :: "event \<Rightarrow> bool" where
  "starts_goroutine ev = (case ev of GoMapper i \<Rightarrow> True | GoReader file \<Rightarrow> True | _ \<Rightarrow> False)"

subsection \<open>The loader after its stages\<close>

text \<open>
  A call of a method of the loader ends the process when its events hold an exit or a
  panic; otherwise it returns.
\<close>

definition exits :: "event \<Rightarrow> bool" where
  "exits ev = (case ev of OsExit status \<Rightarrow> True | Panic msg \<Rightarrow> True | _ \<Rightarrow> False)"

text \<open>
  The loader when \<open>mapStage\<close> returns (\<open>None\<close> when the process has ended in it).
  \<open>mapStage\<close> itself assigns \<open>ld.xidDB\<close> (the store opened on the xids directory,
  closed again at the end), \<open>ld.xids\<close> (set, and \<open>nil\<close> again at the end) and the
  entries of \<open>ld.mappers\<close> (\<open>nil\<close> at the end, the length as it was). The mappers, which
  are not in this file, share the state; of them the file says that they use
  \<open>mapFileId\<close> atomically to name their output files: \<open>mapFiles w\<close> is how far they
  advance it.
\<close>

definition mapStage_after :: "world \<Rightarrow> loader \<Rightarrow> loader option" where
  "mapStage_after w ld =
     (if list_ex exits (mapStage w ld) then None
      else Some (ld\<lparr>st := (st ld)\<lparr>mapFileId := mapFileId (st ld) + mapFiles w, xids := False\<rparr>,
                     xidDB := Some (TmpDir (opt (st ld)) @ ''/xids'')\<rparr>))"

text \<open>
  \<open>reduceStage\<close>: sets the phase, makes the channel of shuffle outputs (capacity 100),
  starts the shuffler in a goroutine and runs the reducer (with a write throttle of 100).
  It assigns no field of the loader.
\<close>

definition reduceStage :: "world \<Rightarrow> loader \<Rightarrow> event list" where
  "reduceStage w ld = [SetPhase ''reducePhase'', GoShuffler, ReducerRun]"

text \<open>
  Modelled from the spec: the reducer, which is not in this file, appends the store
  handles it opens (\<open>reduceDbs w\<close>) to the list \<open>dbs\<close> of the shared state, and no
  stage replaces any other part of that state.
\<close>

definition reduceStage_after :: "world \<Rightarrow> loader \<Rightarrow> loader option" where
  "reduceStage_after w ld = Some (ld\<lparr>st := (st ld)\<lparr>dbs := dbs (st ld) @ reduceDbs w\<rparr>\<rparr>)"

text \<open>\<open>writeSchema\<close> writes the schema to every store of \<open>dbs\<close>.\<close>

definition writeSchema :: "world \<Rightarrow> loader \<Rightarrow> event list" where
  "writeSchema w ld = map SchemaWrite (dbs (st ld))"

definition writeSchema_after :: "world \<Rightarrow> loader \<Rightarrow> loader option" where
  "writeSchema_after w ld = Some ld"

text \<open>
  \<open>cleanup\<close> closes every store of \<open>dbs\<close>, each error checked with \<open>x.Check\<close>, and
  prints the summary.
\<close>

fun cleanup_dbs :: "world \<Rightarrow> string list \<Rightarrow> event list" where
  "cleanup_dbs w [] = [EndSummary]"
| "cleanup_dbs w (db # rest) =
     (case dbClose w db of
        Some err \<Rightarrow> DbClose db # Check err
      | None \<Rightarrow> DbClose db # cleanup_dbs w rest)"

definition cleanup :: "world \<Rightarrow> loader \<Rightarrow> event list" where
  "cleanup w ld = cleanup_dbs w (dbs (st ld))"

definition cleanup_after :: "world \<Rightarrow> loader \<Rightarrow> loader option" where
  "cleanup_after w ld = (if list_ex exits (cleanup w ld) then None else Some ld)"

text \<open>
  The caller of the loader is not in this file. \<open>runStages\<close> is any sequence of calls
  of the loader's methods, one after the other on the same loader, up to the call that
  ends the process: the events of the calls and the loader after the last one.
\<close>

datatype stage = MapStage | ReduceStage | WriteSchema | Cleanup

fun stage_events :: "world \<Rightarrow> loader \<Rightarrow> stage \<Rightarrow> event list" where
  "stage_events w ld MapStage = mapStage w ld"
| "stage_events w ld ReduceStage = reduceStage w ld"
| "stage_events w ld WriteSchema = writeSchema w ld"
| "stage_events w ld Cleanup = cleanup w ld"

fun stage_after :: "world \<Rightarrow> loader \<Rightarrow> stage \<Rightarrow> loader option" where
  "stage_after w ld MapStage = mapStage_after w ld"
| "stage_after w ld ReduceStage = reduceStage_after w ld"
| "stage_after w ld WriteSchema = writeSchema_after w ld"
| "stage_after w ld Cleanup = cleanup_after w ld"

fun runStages :: "world \<Rightarrow> loader \<Rightarrow> stage list \<Rightarrow> event list \<times> loader option" where
  "runStages w ld [] = ([], Some ld)"
| "runStages w ld (s # ss) =
     (case stage_after w ld s of
        None \<Rightarrow> (stage_events w ld s, None)
      | Some ld1 \<Rightarrow>
          (case runStages w ld1 ss of
             (tr, res) \<Rightarrow> (stage_events w ld s @ tr, res)))"

subsection \<open>Lexically well-formed array elements\<close>

text \<open>
  What the properties of the JSON chunker call an object: a sequence of tokens between
  braces, a token being a rune other than a brace or a quote, a string literal, or such
  an object again. A string literal is a sequence of items between quotes, an item being
  a rune other than a quote or a backslash, or a backslash followed by any rune.
  \<open>render\<close> is the text of a token.
\<close>

datatype qitem = QRune rune | QEscaped rune

fun wf_qitem :: "qitem \<Rightarrow> bool" where
  "wf_qitem (QRune c) = (c \<noteq> quote \<and> c \<noteq> backslash)"
| "wf_qitem (QEscaped c) = True"

fun render_qitem :: "qitem \<Rightarrow> rune list" where
  "render_qitem (QRune c) = [c]"
| "render_qitem (QEscaped c) = [backslash, c]"

datatype jtoken = Plain rune | Quoted "qitem list" | Object "jtoken list"

fun wf_jtoken :: "jtoken \<Rightarrow> bool" where
  "wf_jtoken (Plain c) = (c \<noteq> lbrace \<and> c \<noteq> rbrace \<and> c \<noteq> quote)"
| "wf_jtoken (Quoted qs) = list_all wf_qitem qs"
| "wf_jtoken (Object ts) = list_all wf_jtoken ts"

fun render :: "jtoken \<Rightarrow> rune list" where
  "render (Plain c) = [c]"
| "render (Quoted qs) = quote # concat (map render_qitem qs) @ [quote]"
| "render (Object ts) = lbrace # concat (map render ts) @ [rbrace]"

text \<open>The code points of an ASCII text.\<close>

definition runes :: "string \<Rightarrow> rune list" where
  "runes s = map of_char s"

text \<open>
  \<open>lastOf l xs\<close> is the reader's \<open>lastRune\<close> after the runes \<open>xs\<close> have been read
  one by one, when it was \<open>l\<close> before.
\<close>

definition lastOf :: "'a option \<Rightarrow> 'a list \<Rightarrow> 'a option" where
  "lastOf l xs = (if xs = [] then l else Some (last xs))"

subsection \<open>Outcomes of one call of the RDF chunker\<close>

text \<open>
  The three ways a run of the RDF chunker's loop can end, for a target of \<open>N\<close>
  newlines in the buffer, \<open>whole\<close> being the buffer so far followed by the pending
  data and \<open>src\<close> the error at the end of the stream: a buffer of \<open>N\<close> lines and no
  error; the whole data, with fewer than \<open>N\<close> newlines, and \<open>EOF\<close>; no buffer and
  the stream's error.
\<close>

definition rdf_post ::
  "nat \<Rightarrow> char list \<Rightarrow> error \<Rightarrow> char list option \<times> error option \<times> char reader \<Rightarrow> bool" where
  "rdf_post N whole src out =
     (case out of (res, err, r') \<Rightarrow>
        srcErr r' = src \<and>
        ((err = None \<and>
          (\<exists>b. res = Some b \<and> whole = b @ pending r' \<and> count_list b nl = N \<and>
               (b = [] \<or> last b = nl))) \<or>
         (err = Some EOF \<and> src = EOF \<and> res = Some whole \<and> pending r' = [] \<and>
          count_list whole nl < N) \<or>
         (err = Some src \<and> src \<noteq> EOF \<and> res = None)))"

text \<open>Readers for the examples.\<close>

definition rdf_example :: "char reader" where
  "rdf_example =
     \<lparr>pending = ''<a> <p> <b> .'' @ [nl] @
                ''<a> <q> \"a literal that is longer than the buffer\" .'' @ [nl] @
                ''<b> <p> <c> .'',
      lastRune = None, bufSize = 16, srcErr = EOF\<rparr>"

text \<open>
  An array element with the whitespace before it and between it and its comma, the text
  of its object, and its text with the comma.
\<close>

type_synonym element = "rune list \<times> jtoken list \<times> rune list"

fun wf_element :: "element \<Rightarrow> bool" where
  "wf_element (wa, ts, wb) =
     (list_all IsSpace wa \<and> list_all wf_jtoken ts \<and> list_all IsSpace wb)"

fun element_object :: "element \<Rightarrow> rune list" where
  "element_object (wa, ts, wb) = render (Object ts)"

fun element_text :: "element \<Rightarrow> rune list" where
  "element_text (wa, ts, wb) = wa @ render (Object ts) @ wb @ [comma]"

text \<open>The events of one failed attempt of \<open>getWriteTimestamp\<close>.\<close>

definition retry_events :: "event list" where
  "retry_events =
     [Timestamps Second 1, Printf ''Error communicating with dgraph zero, retrying: %v'',
      Sleep Second]"

text \<open>
  A run for the examples: the authority fails twice and then answers 17, and the input
  directory holds no file with the extension.
\<close>

definition example_options :: options where
  "example_options =
     \<lparr>RDFDir = ''data'', JSONDir = [], SchemaFile = ''data/schema.txt'', DgraphsDir = ''out'',
      TmpDir = ''tmp'', NumGoroutines = 4, MapBufSize = 67108864, ExpandEdges = True,
      SkipMapPhase = False, CleanupTmp = True, NumShufflers = 1, Version = False,
      StoreXids = False, ZeroAddr = ''localhost:5080'', HttpAddr = ''localhost:8080'',
      IgnoreErrors = False, MapShards = 1, ReduceShards = 1, shardOutputDirs = []\<rparr>"

definition example_world :: world where
  "example_world =
     \<lparr>dial = (\<lambda>addr. None),
      zero = Inl (ErrOther ''unavailable'') ## Inl (ErrOther ''deadline exceeded'') ##
             Inr \<lparr>StartId = 17, EndId = 17\<rparr> ## sconst (Inl (ErrOther ''unavailable'')),
      readSchemaErr = (\<lambda>file. None),
      mkdir = (\<lambda>dir. None),
      badgerOpen = (\<lambda>dir. None),
      walk = (\<lambda>dir. [(dir, None), (dir @ ''/notes.txt'', None), (dir @ ''/old.rdf.bak'', None)]),
      osOpen = (\<lambda>file. None),
      gzipNewReader = (\<lambda>file. None),
      xidDBClose = None,
      mapFiles = 0,
      reduceDbs = [''out/0''],
      dbClose = (\<lambda>db. None)\<rparr>"

text \<open>The loader that \<open>newLoader\<close> returns in that run.\<close>

definition example_loader :: loader where
  "example_loader =
     \<lparr>st = \<lparr>opt = example_options, readerChunkCh = 4, mapFileId = 0, writeTs = 17,
             xids = False, schema = Some ''data/schema.txt'', dbs = []\<rparr>,
      mappers = 4, xidDB = None\<rparr>"

section \<open>Properties\<close>

subsection \<open>The buffered reader's line operations\<close>

lemma takeWhile_split:
  "length (takeWhile (\<lambda>c. c \<noteq> d) xs) < length xs \<Longrightarrow>
   take (Suc (length (takeWhile (\<lambda>c. c \<noteq> d) xs))) xs = takeWhile (\<lambda>c. c \<noteq> d) xs @ [d]"
  by (induction xs) (auto split: if_splits)

lemma takeWhile_all:
  "\<not> length (takeWhile (\<lambda>c. c \<noteq> d) xs) < length xs \<Longrightarrow> d \<notin> set xs"
  by (induction xs) (auto split: if_splits)

lemma takeWhile_prefix_free:
  "\<not> length (takeWhile (\<lambda>c. c \<noteq> d) xs) < n \<Longrightarrow> d \<notin> set (take n xs)"
proof (induction xs arbitrary: n)
  case Nil
  then show ?case by simp
next
  case (Cons x xs)
  then show ?case by (cases n) (auto split: if_splits)
qed

lemma ReadSlice_cases:
  assumes "ReadSlice d r = (slc, err, r1)"
  shows "pending r = slc @ pending r1 \<and> srcErr r1 = srcErr r \<and> bufSize r1 = bufSize r \<and>
    (case err of
       None \<Rightarrow> \<exists>line. slc = line @ [d] \<and> d \<notin> set line
     | Some e \<Rightarrow> d \<notin> set slc \<and> (e = ErrBufferFull \<or> (e = srcErr r \<and> pending r1 = [])))"
proof -
  let ?xs = "pending r"
  let ?line = "takeWhile (\<lambda>c. c \<noteq> d) ?xs"
  consider (found) "length ?line < length ?xs" "length ?line < bufSize r"
    | (ended) "\<not> (length ?line < length ?xs \<and> length ?line < bufSize r)"
        "length ?xs < bufSize r"
    | (full) "\<not> (length ?line < length ?xs \<and> length ?line < bufSize r)"
        "\<not> length ?xs < bufSize r"
    by blast
  then show ?thesis
  proof cases
    case found
    from found assms have res: "slc = take (Suc (length ?line)) ?xs" "err = None"
      "r1 = r\<lparr>pending := drop (Suc (length ?line)) ?xs, lastRune := None\<rparr>"
      by (simp_all add: ReadSlice_def Let_def)
    have "d \<notin> set ?line" by (auto dest: set_takeWhileD)
    moreover have "slc = ?line @ [d]"
      unfolding res(1) by (rule takeWhile_split [OF found(1)])
    ultimately have c3: "\<exists>line. slc = line @ [d] \<and> d \<notin> set line" by blast
    have c1: "?xs = slc @ pending r1"
      unfolding res(1,3) by simp
    have c2: "srcErr r1 = srcErr r" "bufSize r1 = bufSize r"
      unfolding res(3) by simp_all
    show ?thesis unfolding res(2) option.case using c1 c2 c3 by blast
  next
    case ended
    from ended assms have res: "slc = ?xs" "err = Some (srcErr r)"
      "r1 = r\<lparr>pending := [], lastRune := None\<rparr>"
      by (auto simp: ReadSlice_def Let_def)
    from ended have "\<not> length ?line < length ?xs"
      using length_takeWhile_le [of "\<lambda>c. c \<noteq> d" ?xs] by linarith
    then have "d \<notin> set ?xs" by (rule takeWhile_all)
    then show ?thesis unfolding res by simp
  next
    case full
    from full assms have res: "slc = take (bufSize r) ?xs" "err = Some ErrBufferFull"
      "r1 = r\<lparr>pending := drop (bufSize r) ?xs, lastRune := None\<rparr>"
      by (auto simp: ReadSlice_def Let_def)
    have "d \<notin> set (take (bufSize r) ?xs)"
    proof (cases "length ?line < bufSize r")
      case True
      with full have "\<not> length ?line < length ?xs" by simp
      then have "d \<notin> set ?xs" by (rule takeWhile_all)
      then show ?thesis by (auto dest: in_set_takeD)
    next
      case False
      then show ?thesis by (rule takeWhile_prefix_free)
    qed
    then show ?thesis unfolding res by simp
  qed
qed

lemma ReadString_cases:
  assumes "ReadString d r = (str, err, r1)"
  shows "pending r = str @ pending r1 \<and> srcErr r1 = srcErr r \<and> bufSize r1 = bufSize r \<and>
    (case err of
       None \<Rightarrow> \<exists>line. str = line @ [d] \<and> d \<notin> set line
     | Some e \<Rightarrow> d \<notin> set str \<and> e = srcErr r \<and> pending r1 = [])"
proof -
  let ?xs = "pending r"
  let ?line = "takeWhile (\<lambda>c. c \<noteq> d) ?xs"
  show ?thesis
  proof (cases "length ?line < length ?xs")
    case True
    from True assms have res: "str = take (Suc (length ?line)) ?xs" "err = None"
      "r1 = r\<lparr>pending := drop (Suc (length ?line)) ?xs, lastRune := None\<rparr>"
      by (simp_all add: ReadString_def Let_def)
    have "d \<notin> set ?line" by (auto dest: set_takeWhileD)
    moreover have "str = ?line @ [d]"
      unfolding res(1) by (rule takeWhile_split [OF True])
    ultimately have c3: "\<exists>line. str = line @ [d] \<and> d \<notin> set line" by blast
    have c1: "?xs = str @ pending r1"
      unfolding res(1,3) by simp
    have c2: "srcErr r1 = srcErr r" "bufSize r1 = bufSize r"
      unfolding res(3) by simp_all
    show ?thesis unfolding res(2) option.case using c1 c2 c3 by blast
  next
    case False
    from False assms have res: "str = ?xs" "err = Some (srcErr r)"
      "r1 = r\<lparr>pending := [], lastRune := None\<rparr>"
      by (simp_all add: ReadString_def Let_def)
    from False have "d \<notin> set ?xs" by (rule takeWhile_all)
    then show ?thesis unfolding res by simp
  qed
qed


lemma count_list_append [simp]: "count_list (xs @ ys) x = count_list xs x + count_list ys x"
  by (induction xs) auto

lemma count_list_absent: "x \<notin> set xs \<Longrightarrow> count_list xs x = 0"
  by (induction xs) auto

lemma rdfChunker_loop_post:
  "batch = [] \<or> last batch = nl \<Longrightarrow>
   rdf_post (count_list batch nl + (100000 - k)) (batch @ pending r) (srcErr r)
     (rdfChunker_loop k r batch)"
proof (induction k r batch rule: rdfChunker_loop.induct)
  case (1 k r batch)
  show ?case
  proof (cases "k < 100000")
    case False
    then have "rdfChunker_loop k r batch = (Some batch, None, r)"
      by (simp add: rdfChunker_loop.simps [of k])
    with False "1.prems" show ?thesis by (simp add: rdf_post_def)
  next
    case True
    obtain slc err r1 where rs: "ReadSlice nl r = (slc, err, r1)"
      by (cases "ReadSlice nl r") auto
    note f1 = ReadSlice_cases [OF rs]
    from f1 have p1: "pending r = slc @ pending r1" and s1: "srcErr r1 = srcErr r" by simp_all
    show ?thesis
    proof (cases err)
      case None
      with f1 obtain line where line: "slc = line @ [nl]" "nl \<notin> set line" by auto
      from None True rs have eq: "rdfChunker_loop k r batch = rdfChunker_loop (k + 1) r1 (batch @ slc)"
        by (simp add: rdfChunker_loop.simps [of k])
      have a: "rdf_post (count_list (batch @ slc) nl + (100000 - (k + 1))) ((batch @ slc) @ pending r1)
          (srcErr r1) (rdfChunker_loop (k + 1) r1 (batch @ slc))"
        using None line by (intro "1.IH"(2) [OF True rs [symmetric] refl]) simp_all
      have b: "count_list (batch @ slc) nl + (100000 - (k + 1)) = count_list batch nl + (100000 - k)"
        using True line by (simp add: count_list_absent)
      have c: "(batch @ slc) @ pending r1 = batch @ pending r"
        using p1 by simp
      from a show ?thesis by (simp only: eq b c s1)
    next
      case (Some e)
      with f1 have nonl: "nl \<notin> set slc"
        and e: "e = ErrBufferFull \<or> (e = srcErr r \<and> pending r1 = [])" by simp_all
      show ?thesis
      proof (cases "e = EOF")
        case True
        with Some \<open>k < 100000\<close> rs have "rdfChunker_loop k r batch = (Some (batch @ slc), Some EOF, r1)"
          by (simp add: rdfChunker_loop.simps [of k])
        moreover from True e have "srcErr r = EOF" "pending r1 = []" by auto
        ultimately show ?thesis using p1 s1 nonl \<open>k < 100000\<close>
          by (simp add: rdf_post_def count_list_absent)
      next
        case False
        note notEOF = this
        show ?thesis
        proof (cases "e = ErrBufferFull")
          case False
          with notEOF Some \<open>k < 100000\<close> rs have "rdfChunker_loop k r batch = (None, Some e, r1)"
            by (simp add: rdfChunker_loop.simps [of k])
          moreover from False e have "e = srcErr r" by simp
          ultimately show ?thesis using s1 notEOF by (simp add: rdf_post_def)
        next
          case True
          note full = this
          obtain str err2 r2 where rstr: "ReadString nl r1 = (str, err2, r2)"
            by (cases "ReadString nl r1") auto
          note f2 = ReadString_cases [OF rstr]
          from f2 have p2: "pending r1 = str @ pending r2" and s2: "srcErr r2 = srcErr r1" by simp_all
          show ?thesis
          proof (cases err2)
            case None
            with f2 obtain line where line: "str = line @ [nl]" "nl \<notin> set line" by auto
            from None full Some \<open>k < 100000\<close> rs rstr
            have eq: "rdfChunker_loop k r batch = rdfChunker_loop (k + 1) r2 (batch @ slc @ str)"
              by (simp add: rdfChunker_loop.simps [of k])
            have a: "rdf_post (count_list (batch @ slc @ str) nl + (100000 - (k + 1)))
                ((batch @ slc @ str) @ pending r2) (srcErr r2)
                (rdfChunker_loop (k + 1) r2 (batch @ slc @ str))"
              using None Some full line
              by (intro "1.IH"(1) [OF \<open>k < 100000\<close> rs [symmetric] refl _ _ rstr [symmetric] refl]) simp_all
            have b: "count_list (batch @ slc @ str) nl + (100000 - (k + 1)) =
                count_list batch nl + (100000 - k)"
              using \<open>k < 100000\<close> line nonl by (simp add: count_list_absent)
            have c: "(batch @ slc @ str) @ pending r2 = batch @ pending r"
              using p1 p2 by simp
            have d: "srcErr r2 = srcErr r"
              using s1 s2 by simp
            from a show ?thesis by (simp only: eq b c d)
          next
            case (Some e2)
            with f2 have nonl2: "nl \<notin> set str" and e2: "e2 = srcErr r1" "pending r2 = []"
              by simp_all
            show ?thesis
            proof (cases "e2 = EOF")
              case True
              with Some full \<open>err = Some e\<close> \<open>k < 100000\<close> rs rstr
              have "rdfChunker_loop k r batch = (Some (batch @ slc @ str), Some EOF, r2)"
                by (simp add: rdfChunker_loop.simps [of k])
              then show ?thesis using p1 p2 s1 s2 e2 True nonl nonl2 \<open>k < 100000\<close>
                by (simp add: rdf_post_def count_list_absent)
            next
              case False
              with Some full \<open>err = Some e\<close> \<open>k < 100000\<close> rs rstr
              have "rdfChunker_loop k r batch = (None, Some e2, r2)"
                by (simp add: rdfChunker_loop.simps [of k])
              then show ?thesis using s1 s2 e2 False
                by (simp add: rdf_post_def)
            qed
          qed
        qed
      qed
    qed
  qed
qed


lemma rdfChunker_chunk_post:
  "rdf_post 100000 (pending r) (srcErr r) (rdfChunker_chunk r)"
  using rdfChunker_loop_post [of "[]" 0 r] by (simp add: rdfChunker_chunk_def)

lemma chunker_chunk_rdf [simp]: "chunker_chunk rdfChunker = rdfChunker_chunk"
  by (simp add: rdfChunker_def)

lemma readLoop_step:
  "chunker_chunk c r = (Some b, None, r1) \<Longrightarrow> b \<noteq> [] \<Longrightarrow>
   mapStage_readLoop c r sent = mapStage_readLoop c r1 (sent @ [b])"
  by (subst mapStage_readLoop.simps) simp

lemma readLoop_EOF:
  "chunker_chunk c r = (Some b, Some EOF, r1) \<Longrightarrow>
   mapStage_readLoop c r sent = Some (if b = [] then sent else sent @ [b], None, r1)"
  by (subst mapStage_readLoop.simps) simp

lemma readLoop_nil_EOF:
  "chunker_chunk c r = (None, Some EOF, r1) \<Longrightarrow>
   mapStage_readLoop c r sent = Some (sent, None, r1)"
  by (subst mapStage_readLoop.simps) simp

lemma readLoop_error:
  "chunker_chunk c r = (None, Some e, r1) \<Longrightarrow> e \<noteq> EOF \<Longrightarrow>
   mapStage_readLoop c r sent = Some (sent, Some e, r1)"
  by (subst mapStage_readLoop.simps) simp

lemma readLoop_rdf:
  "srcErr r = EOF \<Longrightarrow> \<forall>b\<in>set sent. b \<noteq> [] \<and> last b = nl \<Longrightarrow>
   \<exists>sent' r'. mapStage_readLoop rdfChunker r sent = Some (sent', None, r') \<and>
     concat sent' = concat sent @ pending r \<and>
     (\<forall>b\<in>set (butlast sent'). b \<noteq> [] \<and> last b = nl)"
proof (induction "length (pending r)" arbitrary: r sent rule: less_induct)
  case less
  obtain res err r1 where ch: "rdfChunker_chunk r = (res, err, r1)"
    by (cases "rdfChunker_chunk r") auto
  from rdfChunker_chunk_post [of r] ch less.prems(1)
  have s1: "srcErr r1 = EOF"
    and alt: "(err = None \<and> (\<exists>b. res = Some b \<and> pending r = b @ pending r1 \<and>
                 count_list b nl = 100000 \<and> (b = [] \<or> last b = nl))) \<or>
              (err = Some EOF \<and> res = Some (pending r) \<and> pending r1 = [])"
    by (auto simp: rdf_post_def)
  from alt show ?case
  proof
    assume "err = None \<and> (\<exists>b. res = Some b \<and> pending r = b @ pending r1 \<and>
                 count_list b nl = 100000 \<and> (b = [] \<or> last b = nl))"
    then obtain b where b: "err = None" "res = Some b" "pending r = b @ pending r1"
      "count_list b nl = 100000" "b = [] \<or> last b = nl" by blast
    from b(4) have ne: "b \<noteq> []" by auto
    with b(5) have lastb: "last b = nl" by simp
    from b(3) ne have shorter: "length (pending r1) < length (pending r)" by simp
    have step: "mapStage_readLoop rdfChunker r sent = mapStage_readLoop rdfChunker r1 (sent @ [b])"
      using ch b(1,2) ne by (intro readLoop_step) simp_all
    have "\<forall>x\<in>set (sent @ [b]). x \<noteq> [] \<and> last x = nl"
      using less.prems(2) ne lastb by simp
    from less.hyps [OF shorter s1 this]
    obtain sent' r' where "mapStage_readLoop rdfChunker r1 (sent @ [b]) = Some (sent', None, r')"
      "concat sent' = concat (sent @ [b]) @ pending r1"
      "\<forall>b\<in>set (butlast sent'). b \<noteq> [] \<and> last b = nl" by blast
    with step b(3) show ?thesis by simp
  next
    assume "err = Some EOF \<and> res = Some (pending r) \<and> pending r1 = []"
    with ch have "mapStage_readLoop rdfChunker r sent =
        Some (if pending r = [] then sent else sent @ [pending r], None, r1)"
      by (intro readLoop_EOF) simp
    moreover have "\<forall>b\<in>set (butlast sent). b \<noteq> [] \<and> last b = nl"
      using less.prems(2) by (auto dest: in_set_butlastD)
    ultimately show ?thesis using less.prems(2) by auto
  qed
qed

subsection \<open>The RDF chunker: chunks are whole lines and lose nothing\<close>

text \<open>
  Claim C1. For every RDF stream that ends with end-of-stream, whatever the size of the
  read buffer, the reader goroutine finishes, the buffers that the successive calls of
  \<open>rdfChunker.chunk\<close> return and the goroutine sends (the last, partial one included),
  concatenated in order, are the stream exactly, and every buffer but the last is not
  empty and ends with a newline: no boundary between two chunks is inside a line.
\<close>

theorem rdf_chunks_reproduce_stream:
  assumes "srcErr r = EOF"
  shows "\<exists>sent. mapStage_reader rdfChunker r = Some (sent, Done) \<and> concat sent = pending r \<and>
           (\<forall>b\<in>set (butlast sent). b \<noteq> [] \<and> last b = nl)"
proof -
  from readLoop_rdf [OF assms, of "[]"]
  obtain sent r' where "mapStage_readLoop rdfChunker r [] = Some (sent, None, r')"
    "concat sent = pending r" "\<forall>b\<in>set (butlast sent). b \<noteq> [] \<and> last b = nl"
    by auto
  then show ?thesis
    by (simp add: mapStage_reader_def rdfChunker_def rdfChunker_begin_def rdfChunker_end_def)
qed

theorem rdf_chunks_reproduce_stream_witness:
  "srcErr rdf_example = EOF \<and>
   (\<exists>sent. mapStage_reader rdfChunker rdf_example = Some (sent, Done) \<and>
      concat sent = pending rdf_example \<and>
      (\<forall>b\<in>set (butlast sent). b \<noteq> [] \<and> last b = nl))"
proof -
  have h: "srcErr rdf_example = EOF" by (simp add: rdf_example_def)
  show ?thesis using h rdf_chunks_reproduce_stream [OF h] by simp
qed

text \<open>
  Claim C8. Every call of \<open>rdfChunker.chunk\<close> returns, in one of three ways. Without
  an error it returns a buffer of exactly 100000 complete lines (100000 newlines, the
  last byte a newline), taken from the front of the stream. With \<open>EOF\<close> it returns all
  the pending data, which holds fewer than 100000 newlines and may be empty or end
  without a newline, and the loop of the reader goroutine then sends that buffer when it
  is not empty and stops. Otherwise the stream ended with another error, which is
  returned without a buffer.
\<close>

theorem rdfChunker_chunk_lines:
  "\<exists>res err r'. rdfChunker_chunk r = (res, err, r') \<and>
     ((err = None \<and>
       (\<exists>b. res = Some b \<and> pending r = b @ pending r' \<and> count_list b nl = 100000 \<and> last b = nl)) \<or>
      (err = Some EOF \<and> srcErr r = EOF \<and> res = Some (pending r) \<and> pending r' = [] \<and>
       count_list (pending r) nl < 100000 \<and>
       mapStage_readLoop rdfChunker r sent =
         Some (if pending r = [] then sent else sent @ [pending r], None, r')) \<or>
      (err = Some (srcErr r) \<and> srcErr r \<noteq> EOF \<and> res = None))"
proof -
  obtain res err r1 where ch: "rdfChunker_chunk r = (res, err, r1)"
    by (cases "rdfChunker_chunk r") auto
  from rdfChunker_chunk_post [of r] ch
  consider
    (full) b where "err = None" "res = Some b" "pending r = b @ pending r1"
      "count_list b nl = 100000" "b = [] \<or> last b = nl"
    | (eof) "err = Some EOF" "srcErr r = EOF" "res = Some (pending r)" "pending r1 = []"
      "count_list (pending r) nl < 100000"
    | (fail) "err = Some (srcErr r)" "srcErr r \<noteq> EOF" "res = None"
    by (auto simp: rdf_post_def)
  then show ?thesis
  proof cases
    case full
    from full(4) have "b \<noteq> []" by auto
    with full ch show ?thesis by auto
  next
    case eof
    with ch have "mapStage_readLoop rdfChunker r sent =
        Some (if pending r = [] then sent else sent @ [pending r], None, r1)"
      by (intro readLoop_EOF) simp
    with eof ch show ?thesis by simp
  next
    case fail
    with ch show ?thesis by simp
  qed
qed

theorem rdfChunker_chunk_lines_witness:
  "rdfChunker_chunk rdf_example =
     (Some (pending rdf_example), Some EOF, rdf_example\<lparr>pending := []\<rparr>) \<and>
   count_list (pending rdf_example) nl = 2 \<and>
   mapStage_readLoop rdfChunker rdf_example [] =
     Some ([pending rdf_example], None, rdf_example\<lparr>pending := []\<rparr>)"
  using rdfChunker_chunk_lines [of rdf_example "[]"]
  by (simp add: rdf_example_def rdfChunker_chunk_def rdfChunker_loop.simps ReadSlice_def
      ReadString_def nl_def)

subsection \<open>The JSON chunker: whitespace, string literals and nesting\<close>

lemma lastOf_simps [simp]:
  "lastOf l [] = l" "lastOf l (xs @ [x]) = Some x" "lastOf l (x # xs) = lastOf (Some x) xs"
  "lastOf (lastOf l xs) ys = lastOf l (xs @ ys)"
  by (auto simp: lastOf_def)

lemma ReadRune_Cons [simp]:
  "ReadRune \<lparr>pending = c # cs, lastRune = l, bufSize = n, srcErr = e\<rparr> =
     (Inr c, \<lparr>pending = cs, lastRune = Some c, bufSize = n, srcErr = e\<rparr>)"
  by (simp add: ReadRune_def)

lemma ReadRune_Nil [simp]:
  "ReadRune \<lparr>pending = [], lastRune = l, bufSize = n, srcErr = e\<rparr> =
     (Inl e, \<lparr>pending = [], lastRune = None, bufSize = n, srcErr = e\<rparr>)"
  by (simp add: ReadRune_def)

lemma UnreadRune_Some [simp]:
  "UnreadRune \<lparr>pending = cs, lastRune = Some c, bufSize = n, srcErr = e\<rparr> =
     (None, \<lparr>pending = c # cs, lastRune = None, bufSize = n, srcErr = e\<rparr>)"
  by (simp add: UnreadRune_def)

lemma slurpSpace_token:
  "list_all IsSpace ws \<Longrightarrow> \<not> IsSpace c \<Longrightarrow>
   slurpSpace \<lparr>pending = ws @ c # rest, lastRune = l, bufSize = n, srcErr = e\<rparr> =
     (None, \<lparr>pending = c # rest, lastRune = None, bufSize = n, srcErr = e\<rparr>)"
  by (induction ws arbitrary: l) (simp_all add: slurpSpace.simps [of "\<lparr>pending = _ # _, lastRune = _, bufSize = _, srcErr = _\<rparr>"])

lemma slurpSpace_end:
  "list_all IsSpace ws \<Longrightarrow>
   slurpSpace \<lparr>pending = ws, lastRune = l, bufSize = n, srcErr = e\<rparr> =
     (Some e, \<lparr>pending = [], lastRune = None, bufSize = n, srcErr = e\<rparr>)"
  by (induction ws arbitrary: l) (simp_all add: slurpSpace.simps [of "\<lparr>pending = _, lastRune = _, bufSize = _, srcErr = _\<rparr>"])

lemma slurpQuoted_literal:
  "list_all wf_qitem qs \<Longrightarrow>
   slurpQuoted \<lparr>pending = concat (map render_qitem qs) @ quote # rest, lastRune = l,
                bufSize = n, srcErr = e\<rparr> out =
     (None, \<lparr>pending = rest, lastRune = Some quote, bufSize = n, srcErr = e\<rparr>,
      out @ concat (map render_qitem qs) @ [quote])"
proof (induction qs arbitrary: l out)
  case Nil
  show ?case by (simp add: slurpQuoted.simps [of "\<lparr>pending = _ # _, lastRune = _, bufSize = _, srcErr = _\<rparr>"])
next
  case (Cons q qs)
  then show ?case
    by (cases q) (simp_all add: slurpQuoted.simps [of "\<lparr>pending = _ # _, lastRune = _, bufSize = _, srcErr = _\<rparr>"])
qed

lemmas depthLoop_unfold =
  jsonChunker_depthLoop.simps [of _ "\<lparr>pending = _, lastRune = _, bufSize = _, srcErr = _\<rparr>"]

lemma depthLoop_list:
  assumes IH: "\<And>t d rest l out. t \<in> set ts \<Longrightarrow> 0 < d \<Longrightarrow> wf_jtoken t \<Longrightarrow>
     jsonChunker_depthLoop d \<lparr>pending = render t @ rest, lastRune = l, bufSize = n, srcErr = e\<rparr> out =
     jsonChunker_depthLoop d \<lparr>pending = rest, lastRune = lastOf l (render t), bufSize = n, srcErr = e\<rparr>
       (out @ render t)"
  shows "0 < d \<Longrightarrow> list_all wf_jtoken ts \<Longrightarrow>
   jsonChunker_depthLoop d \<lparr>pending = concat (map render ts) @ rest, lastRune = l, bufSize = n, srcErr = e\<rparr> out =
   jsonChunker_depthLoop d \<lparr>pending = rest, lastRune = lastOf l (concat (map render ts)), bufSize = n, srcErr = e\<rparr>
     (out @ concat (map render ts))"
  using IH
proof (induction ts arbitrary: l out)
  case Nil
  show ?case by simp
next
  case (Cons t ts)
  have step: "jsonChunker_depthLoop d
      \<lparr>pending = render t @ (concat (map render ts) @ rest), lastRune = l, bufSize = n, srcErr = e\<rparr> out =
    jsonChunker_depthLoop d
      \<lparr>pending = concat (map render ts) @ rest, lastRune = lastOf l (render t), bufSize = n, srcErr = e\<rparr>
      (out @ render t)"
    using Cons.prems by simp
  have rest: "jsonChunker_depthLoop d
      \<lparr>pending = concat (map render ts) @ rest, lastRune = lastOf l (render t), bufSize = n, srcErr = e\<rparr>
      (out @ render t) =
    jsonChunker_depthLoop d
      \<lparr>pending = rest, lastRune = lastOf (lastOf l (render t)) (concat (map render ts)), bufSize = n, srcErr = e\<rparr>
      ((out @ render t) @ concat (map render ts))"
    using Cons.prems by (intro Cons.IH) simp_all
  show ?case using step rest by simp
qed

lemma depthLoop_token:
  "0 < d \<Longrightarrow> wf_jtoken t \<Longrightarrow>
   jsonChunker_depthLoop d \<lparr>pending = render t @ rest, lastRune = l, bufSize = n, srcErr = e\<rparr> out =
   jsonChunker_depthLoop d \<lparr>pending = rest, lastRune = lastOf l (render t), bufSize = n, srcErr = e\<rparr>
     (out @ render t)"
proof (induction t arbitrary: d rest l out)
  case (Plain c)
  then show ?case by (simp add: depthLoop_unfold [of _ "_ # _"])
next
  case (Quoted qs)
  then show ?case
    by (simp add: depthLoop_unfold [of _ "_ # _"] slurpQuoted_literal)
next
  case (Object ts)
  have inner: "jsonChunker_depthLoop (d + 1)
      \<lparr>pending = concat (map render ts) @ (rbrace # rest), lastRune = Some lbrace, bufSize = n, srcErr = e\<rparr>
      (out @ [lbrace]) =
    jsonChunker_depthLoop (d + 1)
      \<lparr>pending = rbrace # rest, lastRune = lastOf (Some lbrace) (concat (map render ts)), bufSize = n, srcErr = e\<rparr>
      ((out @ [lbrace]) @ concat (map render ts))"
    using Object.prems by (intro depthLoop_list Object.IH) simp_all
  show ?case
    using Object.prems inner
    by (simp add: depthLoop_unfold [of _ "_ # _"])
qed


lemma not_space_structural:
  "\<not> IsSpace lbrace" "\<not> IsSpace rbrace" "\<not> IsSpace lbracket" "\<not> IsSpace rbracket"
  "\<not> IsSpace comma" "\<not> IsSpace quote"
  by (simp_all add: IsSpace_def)

lemma space_is_plain: "IsSpace c \<Longrightarrow> wf_jtoken (Plain c)"
  by (auto simp: IsSpace_def)

lemma depthLoop_object:
  assumes "0 \<le> d" "list_all wf_jtoken ts"
  shows "jsonChunker_depthLoop (d + 1)
      \<lparr>pending = concat (map render ts) @ rbrace # rest, lastRune = l, bufSize = n, srcErr = e\<rparr> out =
    jsonChunker_depthLoop d
      \<lparr>pending = rest, lastRune = Some rbrace, bufSize = n, srcErr = e\<rparr>
      (out @ concat (map render ts) @ [rbrace])"
proof -
  have "jsonChunker_depthLoop (d + 1)
      \<lparr>pending = concat (map render ts) @ (rbrace # rest), lastRune = l, bufSize = n, srcErr = e\<rparr> out =
    jsonChunker_depthLoop (d + 1)
      \<lparr>pending = rbrace # rest, lastRune = lastOf l (concat (map render ts)), bufSize = n, srcErr = e\<rparr>
      (out @ concat (map render ts))"
    using assms by (intro depthLoop_list depthLoop_token) simp_all
  then show ?thesis using assms(1)
    by (simp add: depthLoop_unfold [of _ "_ # _"])
qed

lemma jsonChunker_chunk_scan:
  assumes "list_all IsSpace ws" "list_all wf_jtoken ts"
    and "obj = lbrace # concat (map render ts) @ [rbrace]"
  shows "jsonChunker_chunk
      \<lparr>pending = ws @ lbrace # concat (map render ts) @ rbrace # rest, lastRune = l,
         bufSize = n, srcErr = e\<rparr> =
    (case slurpSpace \<lparr>pending = rest, lastRune = Some rbrace, bufSize = n, srcErr = e\<rparr> of
       (Some err, r4) \<Rightarrow> (None, Some err, r4)
     | (None, r4) \<Rightarrow>
         (case ReadRune r4 of
            (Inl err, r5) \<Rightarrow> (None, Some err, r5)
          | (Inr ch2, r5) \<Rightarrow>
              if ch2 = rbracket then (Some obj, Some EOF, r5)
              else if ch2 = comma then (Some obj, None, r5)
              else
                (case UnreadRune r5 of
                   (Some err, r6) \<Rightarrow> (None, Some (CheckFailed err), r6)
                 | (None, r6) \<Rightarrow> (Some obj, None, r6))))"
proof -
  have scan: "jsonChunker_depthLoop (0 + 1)
      \<lparr>pending = concat (map render ts) @ rbrace # rest, lastRune = Some lbrace, bufSize = n, srcErr = e\<rparr> [lbrace] =
    jsonChunker_depthLoop 0
      \<lparr>pending = rest, lastRune = Some rbrace, bufSize = n, srcErr = e\<rparr>
      ([lbrace] @ concat (map render ts) @ [rbrace])"
    using assms(2) by (intro depthLoop_object) simp_all
  have "jsonChunker_depthLoop 1
      \<lparr>pending = concat (map render ts) @ rbrace # rest, lastRune = Some lbrace, bufSize = n, srcErr = e\<rparr> [lbrace] =
    (None, \<lparr>pending = rest, lastRune = Some rbrace, bufSize = n, srcErr = e\<rparr>, obj)"
    using scan by (simp add: jsonChunker_depthLoop.simps [of 0] assms(3))
  then show ?thesis
    by (simp add: jsonChunker_chunk_def
        slurpSpace_token [OF assms(1) not_space_structural(1)])
qed

lemma jsonChunker_chunk_object:
  assumes "list_all IsSpace ws" "list_all wf_jtoken ts" "list_all IsSpace ws'"
    and "sep = comma \<or> sep = rbracket"
  shows "jsonChunker_chunk
      \<lparr>pending = ws @ render (Object ts) @ ws' @ sep # rest, lastRune = l, bufSize = n, srcErr = e\<rparr> =
    (Some (render (Object ts)), (if sep = rbracket then Some EOF else None),
     \<lparr>pending = rest, lastRune = Some sep, bufSize = n, srcErr = e\<rparr>)"
proof -
  have sp: "\<not> IsSpace sep"
    using assms(4) by (auto simp: IsSpace_def)
  show ?thesis
    using assms(4)
    by (auto simp: jsonChunker_chunk_scan [OF assms(1,2) refl] slurpSpace_token [OF assms(3) sp])
qed

lemma jsonChunker_chunk_stray:
  assumes "list_all IsSpace ws" "list_all wf_jtoken ts" "list_all IsSpace ws'"
    and "\<not> IsSpace t" "t \<noteq> comma" "t \<noteq> rbracket"
  shows "jsonChunker_chunk
      \<lparr>pending = ws @ render (Object ts) @ ws' @ t # rest, lastRune = l, bufSize = n, srcErr = e\<rparr> =
    (Some (render (Object ts)), None,
     \<lparr>pending = t # rest, lastRune = None, bufSize = n, srcErr = e\<rparr>)"
  using assms(5,6)
  by (simp add: jsonChunker_chunk_scan [OF assms(1,2) refl] slurpSpace_token [OF assms(3,4)])

lemma jsonChunker_chunk_not_map:
  assumes "list_all IsSpace ws" "\<not> IsSpace t" "t \<noteq> lbrace"
  shows "jsonChunker_chunk
      \<lparr>pending = ws @ t # rest, lastRune = l, bufSize = n, srcErr = e\<rparr> =
    (None, Some (ErrExpectedMapStart t),
     \<lparr>pending = rest, lastRune = Some t, bufSize = n, srcErr = e\<rparr>)"
  using assms(3)
  by (simp add: jsonChunker_chunk_def slurpSpace_token [OF assms(1,2)])

lemma jsonChunker_chunk_end_of_input:
  assumes "list_all IsSpace ws"
  shows "jsonChunker_chunk \<lparr>pending = ws, lastRune = l, bufSize = n, srcErr = e\<rparr> =
    (Some [], Some e, \<lparr>pending = [], lastRune = None, bufSize = n, srcErr = e\<rparr>)"
  by (simp add: jsonChunker_chunk_def slurpSpace_end [OF assms])

lemma jsonChunker_begin_array:
  assumes "list_all IsSpace ws"
  shows "jsonChunker_begin \<lparr>pending = ws @ lbracket # rest, lastRune = l, bufSize = n, srcErr = e\<rparr> =
    (None, \<lparr>pending = rest, lastRune = Some lbracket, bufSize = n, srcErr = e\<rparr>)"
  by (simp add: jsonChunker_begin_def slurpSpace_token [OF assms not_space_structural(3)])

lemma jsonChunker_end_of_input:
  assumes "list_all IsSpace ws"
  shows "jsonChunker_end \<lparr>pending = ws, lastRune = l, bufSize = n, srcErr = EOF\<rparr> =
    (None, \<lparr>pending = [], lastRune = None, bufSize = n, srcErr = EOF\<rparr>)"
  by (simp add: jsonChunker_end_def slurpSpace_end [OF assms])

lemma chunker_json [simp]:
  "chunker_begin jsonChunker = jsonChunker_begin"
  "chunker_chunk jsonChunker = jsonChunker_chunk"
  "chunker_end jsonChunker = jsonChunker_end"
  by (simp_all add: jsonChunker_def)

lemma render_Plain [simp]: "concat (map (render \<circ> Plain) ws) = ws"
  by (induction ws) auto

lemma wf_Plain_spaces: "list_all IsSpace ws \<Longrightarrow> list_all wf_jtoken (map Plain ws)"
  by (induction ws) (simp_all add: space_is_plain del: wf_jtoken.simps)

lemma slurpQuoted_unterminated:
  "list_all wf_qitem qs \<Longrightarrow>
   slurpQuoted \<lparr>pending = concat (map render_qitem qs), lastRune = l, bufSize = n, srcErr = e\<rparr> out =
     (Some e, \<lparr>pending = [], lastRune = None, bufSize = n, srcErr = e\<rparr>,
      out @ concat (map render_qitem qs))"
proof (induction qs arbitrary: l out)
  case Nil
  show ?case by (simp add: slurpQuoted.simps [of "\<lparr>pending = [], lastRune = _, bufSize = _, srcErr = _\<rparr>"])
next
  case (Cons q qs)
  then show ?case
    by (cases q) (simp_all add: slurpQuoted.simps [of "\<lparr>pending = _ # _, lastRune = _, bufSize = _, srcErr = _\<rparr>"])
qed

lemma jsonChunker_chunk_unterminated_string:
  assumes "list_all IsSpace ws" "list_all wf_jtoken ts" "list_all wf_qitem qs"
  shows "jsonChunker_chunk
      \<lparr>pending = ws @ lbrace # concat (map render ts) @ quote # concat (map render_qitem qs),
         lastRune = l, bufSize = n, srcErr = e\<rparr> =
    (None, Some e, \<lparr>pending = [], lastRune = None, bufSize = n, srcErr = e\<rparr>)"
proof -
  have "jsonChunker_depthLoop 1
      \<lparr>pending = concat (map render ts) @ (quote # concat (map render_qitem qs)),
         lastRune = Some lbrace, bufSize = n, srcErr = e\<rparr> [lbrace] =
    jsonChunker_depthLoop 1
      \<lparr>pending = quote # concat (map render_qitem qs),
         lastRune = lastOf (Some lbrace) (concat (map render ts)), bufSize = n, srcErr = e\<rparr>
      ([lbrace] @ concat (map render ts))"
    using assms(2) by (intro depthLoop_list depthLoop_token) simp_all
  then show ?thesis
    by (simp add: jsonChunker_chunk_def slurpSpace_token [OF assms(1) not_space_structural(1)]
        depthLoop_unfold [of _ "_ # _"] slurpQuoted_unterminated [OF assms(3)])
qed

lemma jsonChunker_chunk_unclosed:
  assumes "list_all wf_jtoken ts"
  shows "jsonChunker_chunk
      \<lparr>pending = lbrace # concat (map render ts), lastRune = l, bufSize = n, srcErr = e\<rparr> =
    (None, Some ErrMalformedJson, \<lparr>pending = [], lastRune = None, bufSize = n, srcErr = e\<rparr>)"
proof -
  have "jsonChunker_depthLoop 1
      \<lparr>pending = concat (map render ts) @ [], lastRune = Some lbrace, bufSize = n, srcErr = e\<rparr> [lbrace] =
    jsonChunker_depthLoop 1
      \<lparr>pending = [], lastRune = lastOf (Some lbrace) (concat (map render ts)), bufSize = n, srcErr = e\<rparr>
      ([lbrace] @ concat (map render ts))"
    using assms by (intro depthLoop_list depthLoop_token) simp_all
  then show ?thesis
    using slurpSpace_token [of "[]" lbrace "concat (map render ts)" l n e]
    by (simp add: jsonChunker_chunk_def not_space_structural depthLoop_unfold [of _ "[]"])
qed

lemma readLoop_elements:
  "list_all wf_element es \<Longrightarrow>
   mapStage_readLoop jsonChunker
     \<lparr>pending = concat (map element_text es) @ rest, lastRune = l, bufSize = n, srcErr = e\<rparr> sent =
   mapStage_readLoop jsonChunker
     \<lparr>pending = rest, lastRune = (if es = [] then l else Some comma), bufSize = n, srcErr = e\<rparr>
     (sent @ map element_object es)"
proof (induction es arbitrary: l sent)
  case Nil
  show ?case by simp
next
  case (Cons el es)
  obtain wa ts wb where el: "el = (wa, ts, wb)" by (cases el) auto
  from Cons.prems el have wf: "list_all IsSpace wa" "list_all wf_jtoken ts" "list_all IsSpace wb"
    and wfes: "list_all wf_element es"
    by simp_all
  have "mapStage_readLoop jsonChunker
     \<lparr>pending = wa @ render (Object ts) @ wb @ comma # (concat (map element_text es) @ rest),
        lastRune = l, bufSize = n, srcErr = e\<rparr> sent =
   mapStage_readLoop jsonChunker
     \<lparr>pending = concat (map element_text es) @ rest, lastRune = Some comma, bufSize = n, srcErr = e\<rparr>
     (sent @ [render (Object ts)])"
  proof (rule readLoop_step)
    show "chunker_chunk jsonChunker
       \<lparr>pending = wa @ render (Object ts) @ wb @ comma # (concat (map element_text es) @ rest),
          lastRune = l, bufSize = n, srcErr = e\<rparr> =
      (Some (render (Object ts)), None,
       \<lparr>pending = concat (map element_text es) @ rest, lastRune = Some comma, bufSize = n,
          srcErr = e\<rparr>)"
      by (simp add: jsonChunker_chunk_object [OF wf, of comma] del: render.simps)
    show "render (Object ts) \<noteq> []" by simp
  qed
  then show ?case
    using Cons.IH [OF wfes, of "Some comma" "sent @ [render (Object ts)]"]
    by (simp add: el)
qed

subsection \<open>The JSON chunker: what each call returns\<close>

lemma mapStage_reader_json:
  assumes "jsonChunker_begin r = (None, r0)"
    and "mapStage_readLoop jsonChunker r0 [] = Some (sent, err, r1)"
  shows "mapStage_reader jsonChunker r =
    (case err of
       Some e \<Rightarrow> Some (sent, Fatal e)
     | None \<Rightarrow>
         (case jsonChunker_end r1 of
            (Some e, r2) \<Rightarrow> Some (sent, Fatal e)
          | (None, r2) \<Rightarrow> Some (sent, Done)))"
  using assms by (simp add: mapStage_reader_def split: option.splits)

text \<open>
  Claim C2. For every lexically well-formed object, whatever its string literals hold
  (braces, escaped quotes, any escaped rune), \<open>jsonChunker.chunk\<close> returns the whole
  text of the object as one chunk: it skips the whitespace before the object and after
  it, consumes the token after it when that is a comma or the closing bracket (with
  \<open>EOF\<close> for the bracket) and leaves any other token unread. The reason is in the
  second part: at any positive depth the loop reads a whole string literal and goes on
  at the same depth, the literal copied to the buffer unchanged.
\<close>

theorem jsonChunker_chunk_whole_object:
  assumes "list_all IsSpace ws" "list_all wf_jtoken ts" "list_all IsSpace ws'"
    and "\<not> IsSpace t"
  shows "jsonChunker_chunk
      \<lparr>pending = ws @ render (Object ts) @ ws' @ t # rest, lastRune = l, bufSize = n, srcErr = e\<rparr> =
    (Some (render (Object ts)), (if t = rbracket then Some EOF else None),
     (if t = comma \<or> t = rbracket
      then \<lparr>pending = rest, lastRune = Some t, bufSize = n, srcErr = e\<rparr>
      else \<lparr>pending = t # rest, lastRune = None, bufSize = n, srcErr = e\<rparr>)) \<and>
    (\<forall>d qs rest' out l'. 0 < d \<and> list_all wf_qitem qs \<longrightarrow>
       jsonChunker_depthLoop d
         \<lparr>pending = render (Quoted qs) @ rest', lastRune = l', bufSize = n, srcErr = e\<rparr> out =
       jsonChunker_depthLoop d
         \<lparr>pending = rest', lastRune = Some quote, bufSize = n, srcErr = e\<rparr>
         (out @ render (Quoted qs)))"
proof
  show "jsonChunker_chunk
      \<lparr>pending = ws @ render (Object ts) @ ws' @ t # rest, lastRune = l, bufSize = n, srcErr = e\<rparr> =
    (Some (render (Object ts)), (if t = rbracket then Some EOF else None),
     (if t = comma \<or> t = rbracket
      then \<lparr>pending = rest, lastRune = Some t, bufSize = n, srcErr = e\<rparr>
      else \<lparr>pending = t # rest, lastRune = None, bufSize = n, srcErr = e\<rparr>))"
  proof (cases "t = comma \<or> t = rbracket")
    case True
    from jsonChunker_chunk_object [OF assms(1,2,3) True, of rest l n e] True
    show ?thesis by (simp only: if_True)
  next
    case False
    then have "t \<noteq> comma" "t \<noteq> rbracket" by simp_all
    from jsonChunker_chunk_stray [OF assms this, of rest l n e] False \<open>t \<noteq> rbracket\<close>
    show ?thesis by (simp only: if_False)
  qed
next
  show "\<forall>d qs rest' out l'. 0 < d \<and> list_all wf_qitem qs \<longrightarrow>
       jsonChunker_depthLoop d
         \<lparr>pending = render (Quoted qs) @ rest', lastRune = l', bufSize = n, srcErr = e\<rparr> out =
       jsonChunker_depthLoop d
         \<lparr>pending = rest', lastRune = Some quote, bufSize = n, srcErr = e\<rparr>
         (out @ render (Quoted qs))"
  proof (intro allI impI)
    fix d :: int and qs rest' out l'
    assume a: "0 < d \<and> list_all wf_qitem qs"
    then have "wf_jtoken (Quoted qs)" by simp
    from depthLoop_token [OF conjunct1 [OF a] this, of rest' l' n e out]
    show "jsonChunker_depthLoop d
         \<lparr>pending = render (Quoted qs) @ rest', lastRune = l', bufSize = n, srcErr = e\<rparr> out =
       jsonChunker_depthLoop d
         \<lparr>pending = rest', lastRune = Some quote, bufSize = n, srcErr = e\<rparr>
         (out @ render (Quoted qs))"
      by simp
  qed
qed

theorem jsonChunker_chunk_whole_object_witness:
  "jsonChunker_chunk
      \<lparr>pending = runes ''  {\"k\": \"a}'' @ [backslash, quote] @ runes ''{b\"} , {\"j\": 1}]'',
       lastRune = None, bufSize = 4096, srcErr = EOF\<rparr> =
    (Some (runes ''{\"k\": \"a}'' @ [backslash, quote] @ runes ''{b\"}''), None,
     \<lparr>pending = runes '' {\"j\": 1}]'', lastRune = Some comma, bufSize = 4096, srcErr = EOF\<rparr>) \<and>
   jsonChunker_chunk
      \<lparr>pending = runes ''{\"k\": \"a}b\"}]'', lastRune = Some lbracket, bufSize = 4096, srcErr = EOF\<rparr> =
    (Some (runes ''{\"k\": \"a}b\"}''), Some EOF,
     \<lparr>pending = [], lastRune = Some rbracket, bufSize = 4096, srcErr = EOF\<rparr>)"
  using jsonChunker_chunk_whole_object [of "runes ''  ''"
      "[Quoted (map QRune (runes ''k'')), Plain 58, Plain 32,
        Quoted [QRune 97, QRune rbrace, QEscaped quote, QRune lbrace, QRune 98]]"
      "runes '' ''" comma "runes '' {\"j\": 1}]''" None 4096 EOF]
    jsonChunker_chunk_whole_object [of "[]"
      "[Quoted (map QRune (runes ''k'')), Plain 58, Plain 32,
        Quoted [QRune 97, QRune rbrace, QRune 98]]"
      "[]" rbracket "[]" "Some lbracket" 4096 EOF]
  by (simp add: runes_def IsSpace_def)

text \<open>
  Claim C9. An empty top-level array is rejected: after \<open>begin\<close> has consumed the
  opening bracket, the first call of \<open>jsonChunker.chunk\<close> reads the closing bracket
  where an object must start and returns the error "expected json map start" with that
  rune, which stops the process with no chunk sent. Whitespace before either bracket
  does not change this.
\<close>

theorem empty_array_rejected:
  assumes "list_all IsSpace ws0" "list_all IsSpace ws1"
  shows "jsonChunker_begin
      \<lparr>pending = ws0 @ lbracket # ws1 @ rbracket # rest, lastRune = l, bufSize = n, srcErr = e\<rparr> =
      (None, \<lparr>pending = ws1 @ rbracket # rest, lastRune = Some lbracket, bufSize = n, srcErr = e\<rparr>) \<and>
    jsonChunker_chunk
      \<lparr>pending = ws1 @ rbracket # rest, lastRune = Some lbracket, bufSize = n, srcErr = e\<rparr> =
      (None, Some (ErrExpectedMapStart rbracket),
       \<lparr>pending = rest, lastRune = Some rbracket, bufSize = n, srcErr = e\<rparr>) \<and>
    mapStage_reader jsonChunker
      \<lparr>pending = ws0 @ lbracket # ws1 @ rbracket # rest, lastRune = l, bufSize = n, srcErr = e\<rparr> =
      Some ([], Fatal (ErrExpectedMapStart rbracket))"
proof -
  let ?r0 = "\<lparr>pending = ws0 @ lbracket # ws1 @ rbracket # rest, lastRune = l, bufSize = n, srcErr = e\<rparr>"
  let ?r1 = "\<lparr>pending = ws1 @ rbracket # rest, lastRune = Some lbracket, bufSize = n, srcErr = e\<rparr>"
  let ?r2 = "\<lparr>pending = rest, lastRune = Some rbracket, bufSize = n, srcErr = e\<rparr>"
  have b: "jsonChunker_begin ?r0 = (None, ?r1)"
    using assms(1) by (rule jsonChunker_begin_array)
  have c: "jsonChunker_chunk ?r1 = (None, Some (ErrExpectedMapStart rbracket), ?r2)"
    using assms(2) by (intro jsonChunker_chunk_not_map) (simp_all add: not_space_structural)
  have "mapStage_readLoop jsonChunker ?r1 [] = Some ([], Some (ErrExpectedMapStart rbracket), ?r2)"
    using c by (intro readLoop_error) simp_all
  from mapStage_reader_json [OF b this] b c show ?thesis by simp
qed

theorem empty_array_rejected_witness:
  "mapStage_reader jsonChunker
      \<lparr>pending = runes ''[]'', lastRune = None, bufSize = 4096, srcErr = EOF\<rparr> =
      Some ([], Fatal (ErrExpectedMapStart rbracket))"
  using empty_array_rejected [of "[]" "[]" "[]" None 4096 EOF]
  by (simp add: runes_def)

text \<open>
  Claim C10. An input that ends after complete elements, each followed by its comma,
  and never closes the array is accepted: the call of \<open>jsonChunker.chunk\<close> after the
  last comma meets the end of the input while it skips whitespace and returns an empty
  buffer with \<open>EOF\<close>, \<open>jsonChunker.end\<close> succeeds, and the reader goroutine finishes
  without an error, having sent every element.
\<close>

theorem truncated_array_accepted:
  assumes "list_all IsSpace ws0" "list_all wf_element es" "list_all IsSpace ws1"
  shows "jsonChunker_chunk \<lparr>pending = ws1, lastRune = l', bufSize = n, srcErr = EOF\<rparr> =
      (Some [], Some EOF, \<lparr>pending = [], lastRune = None, bufSize = n, srcErr = EOF\<rparr>) \<and>
    jsonChunker_end \<lparr>pending = [], lastRune = None, bufSize = n, srcErr = EOF\<rparr> =
      (None, \<lparr>pending = [], lastRune = None, bufSize = n, srcErr = EOF\<rparr>) \<and>
    mapStage_reader jsonChunker
      \<lparr>pending = ws0 @ lbracket # concat (map element_text es) @ ws1, lastRune = l, bufSize = n,
         srcErr = EOF\<rparr> =
      Some (map element_object es, Done)"
proof -
  let ?l = "if es = [] then Some lbracket else Some comma"
  let ?end = "\<lparr>pending = [], lastRune = None, bufSize = n, srcErr = EOF\<rparr> :: rune reader"
  have c: "jsonChunker_chunk \<lparr>pending = ws1, lastRune = l', bufSize = n, srcErr = EOF\<rparr> =
      (Some [], Some EOF, ?end)" for l'
    using assms(3) by (rule jsonChunker_chunk_end_of_input)
  have e: "jsonChunker_end ?end = (None, ?end)"
    using jsonChunker_end_of_input [of "[]"] by simp
  have b: "jsonChunker_begin
      \<lparr>pending = ws0 @ lbracket # concat (map element_text es) @ ws1, lastRune = l, bufSize = n,
         srcErr = EOF\<rparr> =
      (None, \<lparr>pending = concat (map element_text es) @ ws1, lastRune = Some lbracket, bufSize = n,
         srcErr = EOF\<rparr>)"
    using assms(1) by (rule jsonChunker_begin_array)
  have "mapStage_readLoop jsonChunker
      \<lparr>pending = concat (map element_text es) @ ws1, lastRune = Some lbracket, bufSize = n,
         srcErr = EOF\<rparr> [] =
    mapStage_readLoop jsonChunker \<lparr>pending = ws1, lastRune = ?l, bufSize = n, srcErr = EOF\<rparr>
      ([] @ map element_object es)"
    using assms(2) by (rule readLoop_elements)
  also have "\<dots> = Some (map element_object es, None, ?end)"
    using readLoop_EOF [of jsonChunker _ "[]" ?end, OF c [of ?l, folded chunker_json(2)]] by simp
  finally have "mapStage_readLoop jsonChunker
      \<lparr>pending = concat (map element_text es) @ ws1, lastRune = Some lbracket, bufSize = n,
         srcErr = EOF\<rparr> [] = Some (map element_object es, None, ?end)" .
  from mapStage_reader_json [OF b this] c [of l'] e show ?thesis by simp
qed


theorem truncated_array_accepted_witness:
  "mapStage_reader jsonChunker
      \<lparr>pending = runes ''[{\"a\": 1},'', lastRune = None, bufSize = 4096, srcErr = EOF\<rparr> =
      Some ([runes ''{\"a\": 1}''], Done)"
  using truncated_array_accepted [of "[]"
      "[([], [Quoted [QRune 97], Plain 58, Plain 32, Plain 49], [])]" "[]" None 4096 None]
  by (simp add: runes_def)

text \<open>
  Claim C4. In an input of the form bracket, object, stray token, object, bracket,
  where the token after the first object is neither whitespace nor a comma nor the
  closing bracket, the call of \<open>jsonChunker.chunk\<close> that scanned the first object
  returns it without an error and leaves the stray token unread; the next call returns
  a malformed-input error ("expected json map start" with the token, or "malformed
  json" when the token is an opening brace); the goroutine has sent the first object
  and stops the process with that error.
\<close>

theorem stray_token_reported_by_next_call:
  assumes "list_all IsSpace ws0" "list_all IsSpace ws1" "list_all wf_jtoken ts1"
    and "list_all IsSpace ws2" "\<not> IsSpace t" "t \<noteq> comma" "t \<noteq> rbracket"
    and "list_all IsSpace ws3" "list_all wf_jtoken ts2" "list_all IsSpace ws4"
    and "list_all IsSpace ws5"
    and "tail = ws3 @ render (Object ts2) @ ws4 @ rbracket # ws5"
    and "err = (if t = lbrace then ErrMalformedJson else ErrExpectedMapStart t)"
  shows "jsonChunker_chunk
      \<lparr>pending = ws1 @ render (Object ts1) @ ws2 @ t # tail, lastRune = Some lbracket,
         bufSize = n, srcErr = e\<rparr> =
      (Some (render (Object ts1)), None,
       \<lparr>pending = t # tail, lastRune = None, bufSize = n, srcErr = e\<rparr>) \<and>
    (\<exists>r3. jsonChunker_chunk \<lparr>pending = t # tail, lastRune = None, bufSize = n, srcErr = e\<rparr> =
       (None, Some err, r3)) \<and>
    mapStage_reader jsonChunker
      \<lparr>pending = ws0 @ lbracket # ws1 @ render (Object ts1) @ ws2 @ t # tail, lastRune = l,
         bufSize = n, srcErr = e\<rparr> =
      Some ([render (Object ts1)], Fatal err)"
proof -
  let ?r1 = "\<lparr>pending = ws1 @ render (Object ts1) @ ws2 @ t # tail, lastRune = Some lbracket,
         bufSize = n, srcErr = e\<rparr>"
  let ?r2 = "\<lparr>pending = t # tail, lastRune = None, bufSize = n, srcErr = e\<rparr>"
  have b: "jsonChunker_begin
      \<lparr>pending = ws0 @ lbracket # ws1 @ render (Object ts1) @ ws2 @ t # tail, lastRune = l,
         bufSize = n, srcErr = e\<rparr> = (None, ?r1)"
    using assms(1) by (rule jsonChunker_begin_array)
  have c1: "jsonChunker_chunk ?r1 = (Some (render (Object ts1)), None, ?r2)"
    using assms(2,3,4,5,6,7) by (rule jsonChunker_chunk_stray)
  have "\<exists>r3. jsonChunker_chunk ?r2 = (None, Some err, r3)"
  proof (cases "t = lbrace")
    case False
    have "jsonChunker_chunk \<lparr>pending = [] @ t # tail, lastRune = None, bufSize = n, srcErr = e\<rparr> =
      (None, Some (ErrExpectedMapStart t),
       \<lparr>pending = tail, lastRune = Some t, bufSize = n, srcErr = e\<rparr>)"
      using assms(5) False by (intro jsonChunker_chunk_not_map) simp_all
    with False assms(13) show ?thesis by simp
  next
    case True
    let ?toks = "map Plain ws3 @ [Object ts2] @ map Plain ws4 @ [Plain rbracket] @ map Plain ws5"
    have wf: "list_all wf_jtoken ?toks"
    proof -
      have "wf_jtoken (Plain rbracket)" by simp
      then show ?thesis
        using assms(8,9,10,11) by (simp add: wf_Plain_spaces del: wf_jtoken.simps(1))
    qed
    have rendered: "concat (map render ?toks) = tail"
      by (simp add: assms(12))
    from jsonChunker_chunk_unclosed [OF wf, of None n e]
    have "jsonChunker_chunk \<lparr>pending = lbrace # tail, lastRune = None, bufSize = n, srcErr = e\<rparr> =
      (None, Some ErrMalformedJson, \<lparr>pending = [], lastRune = None, bufSize = n, srcErr = e\<rparr>)"
      unfolding rendered .
    with True assms(13) show ?thesis by simp
  qed
  then obtain r3 where c2: "jsonChunker_chunk ?r2 = (None, Some err, r3)" ..
  have ne: "err \<noteq> EOF" using assms(13) by simp
  have "mapStage_readLoop jsonChunker ?r1 [] =
      mapStage_readLoop jsonChunker ?r2 ([] @ [render (Object ts1)])"
    using c1 by (intro readLoop_step) simp_all
  also have "\<dots> = Some ([] @ [render (Object ts1)], Some err, r3)"
    using c2 ne by (intro readLoop_error) simp_all
  finally have "mapStage_readLoop jsonChunker ?r1 [] = Some ([render (Object ts1)], Some err, r3)"
    by simp
  from mapStage_reader_json [OF b this] c1 c2 show ?thesis by simp
qed

theorem stray_token_reported_by_next_call_witness:
  "mapStage_reader jsonChunker
      \<lparr>pending = runes ''[{\"a\": 1} ; {\"b\": 2}]'', lastRune = None, bufSize = 4096,
       srcErr = EOF\<rparr> =
      Some ([runes ''{\"a\": 1}''], Fatal (ErrExpectedMapStart 59))"
  using stray_token_reported_by_next_call [of "[]" "[]"
      "[Quoted [QRune 97], Plain 58, Plain 32, Plain 49]" "runes '' ''" 59 "runes '' ''"
      "[Quoted [QRune 98], Plain 58, Plain 32, Plain 50]" "[]" "[]"
      "runes '' {\"b\": 2}]''" "ErrExpectedMapStart 59" 4096 EOF None]
  by (simp add: runes_def IsSpace_def)

subsection \<open>The JSON chunker: an input that ends inside a string literal\<close>

lemma unterminated_string_accepted:
  assumes "list_all IsSpace ws0" "list_all wf_element es" "list_all IsSpace ws1"
    and "list_all wf_jtoken ts" "list_all wf_qitem qs"
  shows "mapStage_reader jsonChunker
      \<lparr>pending = ws0 @ lbracket # concat (map element_text es) @ ws1 @ lbrace #
                 concat (map render ts) @ quote # concat (map render_qitem qs),
       lastRune = l, bufSize = n, srcErr = EOF\<rparr> =
      Some (map element_object es, Done)"
proof -
  let ?rest = "ws1 @ lbrace # concat (map render ts) @ quote # concat (map render_qitem qs)"
  let ?l = "if es = [] then Some lbracket else Some comma"
  let ?end = "\<lparr>pending = [], lastRune = None, bufSize = n, srcErr = EOF\<rparr> :: rune reader"
  have b: "jsonChunker_begin
      \<lparr>pending = ws0 @ lbracket # concat (map element_text es) @ ?rest, lastRune = l, bufSize = n,
         srcErr = EOF\<rparr> =
      (None, \<lparr>pending = concat (map element_text es) @ ?rest, lastRune = Some lbracket,
         bufSize = n, srcErr = EOF\<rparr>)"
    using assms(1) by (rule jsonChunker_begin_array)
  have c: "chunker_chunk jsonChunker \<lparr>pending = ?rest, lastRune = ?l, bufSize = n, srcErr = EOF\<rparr> =
      (None, Some EOF, ?end)"
    using jsonChunker_chunk_unterminated_string [OF assms(3,4,5)] by simp
  have e: "jsonChunker_end ?end = (None, ?end)"
    using jsonChunker_end_of_input [of "[]"] by simp
  have "mapStage_readLoop jsonChunker
      \<lparr>pending = concat (map element_text es) @ ?rest, lastRune = Some lbracket, bufSize = n,
         srcErr = EOF\<rparr> [] =
    mapStage_readLoop jsonChunker \<lparr>pending = ?rest, lastRune = ?l, bufSize = n, srcErr = EOF\<rparr>
      ([] @ map element_object es)"
    using assms(2) by (rule readLoop_elements)
  also have "\<dots> = Some ([] @ map element_object es, None, ?end)"
    using c by (rule readLoop_nil_EOF)
  finally have "mapStage_readLoop jsonChunker
      \<lparr>pending = concat (map element_text es) @ ?rest, lastRune = Some lbracket, bufSize = n,
         srcErr = EOF\<rparr> [] = Some (map element_object es, None, ?end)"
    by simp
  from mapStage_reader_json [OF b this] e show ?thesis by simp
qed

text \<open>
  Claim C3 says that an input ending inside a string literal is a fatal malformed-input
  error. The code does otherwise: \<open>slurpQuoted\<close> returns \<open>EOF\<close>, the loop of
  \<open>jsonChunker.chunk\<close> passes it on as it is (where its own read error becomes
  "malformed json"), and the reader goroutine takes it for the end of the stream: for
  the input \<open>[ {"a": "b\<close> the call returns no buffer and \<open>EOF\<close>, and the goroutine
  finishes without an error, the partial object dropped.
\<close>

theorem unterminated_string_not_fatal:
  "jsonChunker_chunk
      \<lparr>pending = runes '' {\"a\": \"b'', lastRune = Some lbracket, bufSize = 4096, srcErr = EOF\<rparr> =
      (None, Some EOF, \<lparr>pending = [], lastRune = None, bufSize = 4096, srcErr = EOF\<rparr>) \<and>
   mapStage_reader jsonChunker
      \<lparr>pending = runes ''[ {\"a\": \"b'', lastRune = None, bufSize = 4096, srcErr = EOF\<rparr> =
      Some ([], Done)"
  using jsonChunker_chunk_unterminated_string [of "runes '' ''" "[Quoted [QRune 97], Plain 58, Plain 32]"
      "[QRune 98]" "Some lbracket" 4096 EOF]
    unterminated_string_accepted [of "[]" "[]" "runes '' ''"
      "[Quoted [QRune 97], Plain 58, Plain 32]" "[QRune 98]" None 4096]
  by (simp add: runes_def IsSpace_def)

subsection \<open>The write timestamp\<close>

lemma getWriteTimestamp_retries:
  "\<forall>i<k. isl (client !! i) \<Longrightarrow> client !! k = Inr ts \<Longrightarrow>
   getWriteTimestamp client tr =
     Some (StartId ts, sdrop (Suc k) client,
           tr @ concat (replicate k retry_events) @ [Timestamps Second 1])"
proof (induction k arbitrary: client tr)
  case 0
  then show ?case by (subst getWriteTimestamp.simps) simp
next
  case (Suc k)
  from Suc.prems(1) have "isl (shd client)" by (metis snth.simps(1) zero_less_Suc)
  then obtain err where err: "shd client = Inl err" by (cases "shd client") auto
  have "\<forall>i<k. isl (stl client !! i)"
    using Suc.prems(1) by (metis Suc_less_eq snth.simps(2))
  moreover have "stl client !! k = Inr ts"
    using Suc.prems(2) by simp
  ultimately have "getWriteTimestamp (stl client) (tr @ retry_events) =
     Some (StartId ts, sdrop (Suc k) (stl client),
           (tr @ retry_events) @ concat (replicate k retry_events) @ [Timestamps Second 1])"
    by (rule Suc.IH)
  then show ?case
    using err by (subst getWriteTimestamp.simps) (simp add: retry_events_def)
qed

lemma getWriteTimestamp_returns:
  assumes "getWriteTimestamp client tr = Some res"
  shows "\<exists>k ts. client !! k = Inr ts"
proof (rule getWriteTimestamp.raw_induct [OF _ assms], goal_cases)
  case (1 f client tr res)
  show ?case
  proof (cases "shd client")
    case (Inr ts)
    then have "client !! 0 = Inr ts" by simp
    then show ?thesis by blast
  next
    case (Inl err)
    with 1(2) obtain k ts where "stl client !! k = Inr ts"
      by (auto dest: 1(1))
    then have "client !! Suc k = Inr ts" by simp
    then show ?thesis by blast
  qed
qed

lemma getWriteTimestamp_never:
  "\<forall>i. isl (client !! i) \<Longrightarrow> getWriteTimestamp client tr = None"
proof (cases "getWriteTimestamp client tr")
  case None
  then show ?thesis .
next
  case (Some res)
  assume "\<forall>i. isl (client !! i)"
  moreover from getWriteTimestamp_returns [OF Some] obtain k ts where "client !! k = Inr ts"
    by blast
  ultimately show ?thesis by (metis sum.disc(2))
qed

lemma openReaders_no_Timestamps:
  "openReaders w files readers = (tr, res) \<Longrightarrow> Timestamps d n \<notin> set tr"
proof (induction files arbitrary: readers tr res)
  case Nil
  then show ?case by auto
next
  case (Cons f files)
  let ?readers = "if f \<in> set readers then readers else readers @ [f]"
  obtain tr1 res1 where rest: "openReaders w files ?readers = (tr1, res1)"
    by (cases "openReaders w files ?readers") auto
  from Cons.IH [OF rest] have "Timestamps d n \<notin> set tr1" .
  with Cons.prems rest show ?case
    by (auto split: option.splits if_splits)
qed

lemma mapStage_tail_no_Timestamps:
  assumes "Timestamps d n \<notin> set t2"
  shows "Timestamps d n \<notin> set
    (case findDataFiles w dir ext of
       Inl err \<Rightarrow> t2 @ Check err
     | Inr files \<Rightarrow>
         (case openReaders w files [] of
            (t3, Some err, readers) \<Rightarrow> t2 @ t3 @ Check err
          | (t3, None, readers) \<Rightarrow>
              if length readers = 0 then
                t2 @ t3 @ [Printf ''No *%s files found.\<newline>'', OsExit 1]
              else
                t2 @ t3 @ map GoMapper [0..<nmappers] @
                concat (map (\<lambda>file.
                          [ThrottleStart,
                           Printf ''Processing file (%d out of %d): %s\<newline>'',
                           GoReader file]) readers) @
                [ThrottleWait, CloseReaderChunkCh, MapperWgWait, EvictAll,
                 XidDBClose] @
                (case xidDBClose w of
                   Some err \<Rightarrow> Check err
                 | None \<Rightarrow> RuntimeGC # map FileClose (rev files))))"
proof (cases "findDataFiles w dir ext")
  case (Inl err)
  with assms show ?thesis by (simp add: Check_def)
next
  case (Inr files)
  obtain t3 res readers where o: "openReaders w files [] = (t3, res, readers)"
    by (cases "openReaders w files []") auto
  then have t3: "Timestamps d n \<notin> set t3" by (rule openReaders_no_Timestamps)
  show ?thesis
  proof (cases res)
    case (Some err)
    with Inr o t3 assms show ?thesis by (simp add: Check_def)
  next
    case None
    with Inr o t3 assms show ?thesis
      by (auto simp: Check_def split: option.splits)
  qed
qed

lemma mapStage_no_Timestamps: "Timestamps d n \<notin> set (mapStage w ld)"
proof (cases "mkdir w (TmpDir (opt (st ld)) @ ''/xids'')")
  case (Some err)
  then show ?thesis by (simp add: mapStage_def Let_def Check_def)
next
  case None
  note mk = this
  show ?thesis
  proof (cases "badgerOpen w (TmpDir (opt (st ld)) @ ''/xids'')")
    case (Some err)
    with mk show ?thesis by (simp add: mapStage_def Let_def Check_def)
  next
    case None
    show ?thesis
      unfolding mapStage_def Let_def mk None option.case
      by (rule mapStage_tail_no_Timestamps) simp
  qed
qed

lemma cleanup_dbs_no_Timestamps: "Timestamps d n \<notin> set (cleanup_dbs w names)"
  by (induction names) (auto simp: Check_def split: option.splits)

lemma stage_events_no_Timestamps: "Timestamps d n \<notin> set (stage_events w ld s)"
  by (cases s)
     (auto simp: mapStage_no_Timestamps reduceStage_def writeSchema_def cleanup_def
        cleanup_dbs_no_Timestamps)

lemma stage_after_writeTs:
  "stage_after w ld s = Some ld1 \<Longrightarrow> writeTs (st ld1) = writeTs (st ld)"
  by (cases s)
     (auto simp: mapStage_after_def reduceStage_after_def writeSchema_after_def
        cleanup_after_def split: if_splits)

lemma runStages_frame:
  "runStages w ld stages = (tr, after) \<Longrightarrow>
   Timestamps d n \<notin> set tr \<and> (\<forall>ld1. after = Some ld1 \<longrightarrow> writeTs (st ld1) = writeTs (st ld))"
proof (induction stages arbitrary: ld tr after)
  case Nil
  then show ?case by auto
next
  case (Cons s ss)
  show ?case
  proof (cases "stage_after w ld s")
    case None
    with Cons.prems show ?thesis
      by (auto simp: stage_events_no_Timestamps)
  next
    case (Some ld1)
    obtain tr1 res where rest: "runStages w ld1 ss = (tr1, res)"
      by (cases "runStages w ld1 ss") auto
    from Cons.IH [OF rest]
    have "Timestamps d n \<notin> set tr1"
      and "\<forall>ld2. res = Some ld2 \<longrightarrow> writeTs (st ld2) = writeTs (st ld1)" by simp_all
    moreover from Some have "writeTs (st ld1) = writeTs (st ld)"
      by (rule stage_after_writeTs)
    moreover from Cons.prems Some rest
    have "tr = stage_events w ld s @ tr1" "after = res" by simp_all
    ultimately show ?thesis
      by (simp add: stage_events_no_Timestamps)
  qed
qed

text \<open>
  Claim C6. When the dial succeeds and the authority fails \<open>k\<close> times before it
  answers, \<open>newLoader\<close> makes exactly \<open>k + 1\<close> attempts, each a call for one
  timestamp with a timeout of one second, with the error printed and a sleep of one
  second after each failed one and nothing else in between; the loader it returns has
  as \<open>writeTs\<close> the start id of the answer to the last attempt, and all attempts come
  before the loader exists, so before any stage can run on it. No failure comes out of
  \<open>getWriteTimestamp\<close>: against an authority that always fails it never returns.
  Whatever methods of the loader are then called on it, in whatever order and in
  whatever world, none of them asks for a timestamp again, and the loader keeps that
  \<open>writeTs\<close> through every one of them: the timestamp is obtained once, in
  \<open>newLoader\<close>, and the field is never reassigned.
\<close>

theorem write_timestamp_obtained_once:
  assumes "dial w (ZeroAddr opts) = None" "0 \<le> NumGoroutines opts"
    and "readSchemaErr w (SchemaFile opts) = None"
    and "\<forall>i<k. isl (zero w !! i)" "zero w !! k = Inr ts"
    and "ld0 =
      \<lparr>st = \<lparr>opt = opts, readerChunkCh = NumGoroutines opts, mapFileId = 0,
              writeTs = StartId ts, xids = False, schema = Some (SchemaFile opts), dbs = []\<rparr>,
       mappers = nat (NumGoroutines opts), xidDB = None\<rparr>"
  shows "newLoader w opts =
      Some (Some ld0,
            [Printf ''Connecting to zero at %s\<newline>'', GrpcDial (ZeroAddr opts)] @
            concat (replicate k
              [Timestamps Second 1,
               Printf ''Error communicating with dgraph zero, retrying: %v'', Sleep Second]) @
            [Timestamps Second 1, ReadSchema (SchemaFile opts), GoProgReport]) \<and>
    ((\<forall>i. isl (client !! i)) \<longrightarrow> getWriteTimestamp client tr = None) \<and>
    (\<forall>w1 stages d n. Timestamps d n \<notin> set (fst (runStages w1 ld0 stages))) \<and>
    (\<forall>w1 stages ld1. snd (runStages w1 ld0 stages) = Some ld1 \<longrightarrow>
       writeTs (st ld1) = StartId ts)"
proof (intro conjI)
  show "newLoader w opts =
      Some (Some ld0,
            [Printf ''Connecting to zero at %s\<newline>'', GrpcDial (ZeroAddr opts)] @
            concat (replicate k
              [Timestamps Second 1,
               Printf ''Error communicating with dgraph zero, retrying: %v'', Sleep Second]) @
            [Timestamps Second 1, ReadSchema (SchemaFile opts), GoProgReport])"
    using assms(1,2,3) getWriteTimestamp_retries [OF assms(4,5)]
    by (simp add: newLoader_def retry_events_def assms(6))
next
  show "(\<forall>i. isl (client !! i)) \<longrightarrow> getWriteTimestamp client tr = None"
    by (auto intro: getWriteTimestamp_never)
next
  show "\<forall>w1 stages d n. Timestamps d n \<notin> set (fst (runStages w1 ld0 stages))"
  proof (intro allI)
    fix w1 stages d n
    obtain tr1 res where "runStages w1 ld0 stages = (tr1, res)"
      by (cases "runStages w1 ld0 stages") auto
    with runStages_frame [OF this, of d n]
    show "Timestamps d n \<notin> set (fst (runStages w1 ld0 stages))" by simp
  qed
next
  have ts0: "writeTs (st ld0) = StartId ts" by (simp add: assms(6))
  show "\<forall>w1 stages ld1. snd (runStages w1 ld0 stages) = Some ld1 \<longrightarrow>
       writeTs (st ld1) = StartId ts"
  proof (intro allI impI)
    fix w1 stages ld1
    assume a: "snd (runStages w1 ld0 stages) = Some ld1"
    obtain tr1 res where r: "runStages w1 ld0 stages = (tr1, res)"
      by (cases "runStages w1 ld0 stages") auto
    with a have "res = Some ld1" by simp
    with runStages_frame [OF r, of Second 1] ts0
    show "writeTs (st ld1) = StartId ts" by simp
  qed
qed

theorem write_timestamp_obtained_once_witness:
  "(\<exists>tr. newLoader example_world example_options = Some (Some example_loader, tr) \<and>
     filter (\<lambda>ev. case ev of Timestamps t n \<Rightarrow> True | Sleep t \<Rightarrow> True | _ \<Rightarrow> False) tr =
       [Timestamps 1000000000 1, Sleep 1000000000, Timestamps 1000000000 1, Sleep 1000000000,
        Timestamps 1000000000 1]) \<and>
   writeTs (st example_loader) = 17 \<and>
   runStages example_world example_loader [ReduceStage, WriteSchema, Cleanup] =
     ([SetPhase ''reducePhase'', GoShuffler, ReducerRun, SchemaWrite ''out/0'',
       DbClose ''out/0'', EndSummary],
      Some (example_loader\<lparr>st := (st example_loader)\<lparr>dbs := [''out/0'']\<rparr>\<rparr>)) \<and>
   (\<forall>d n. Timestamps d n \<notin>
      set (fst (runStages example_world example_loader [MapStage, ReduceStage, WriteSchema, Cleanup])))"
proof -
  have h1: "dial example_world (ZeroAddr example_options) = None"
    by (simp add: example_world_def)
  have h2: "0 \<le> NumGoroutines example_options"
    by (simp add: example_options_def)
  have h3: "readSchemaErr example_world (SchemaFile example_options) = None"
    by (simp add: example_world_def)
  have h4: "\<forall>i<2. isl (zero example_world !! i)"
    by (simp add: example_world_def numeral_2_eq_2 less_Suc_eq)
  have h5: "zero example_world !! 2 = Inr \<lparr>StartId = 17, EndId = 17\<rparr>"
    by (simp add: example_world_def numeral_2_eq_2)
  have h6: "example_loader =
      \<lparr>st = \<lparr>opt = example_options, readerChunkCh = NumGoroutines example_options,
              mapFileId = 0, writeTs = StartId \<lparr>StartId = 17, EndId = 17\<rparr>, xids = False,
              schema = Some (SchemaFile example_options), dbs = []\<rparr>,
       mappers = nat (NumGoroutines example_options), xidDB = None\<rparr>"
    by (simp add: example_loader_def example_options_def)
  note t = write_timestamp_obtained_once [OF h1 h2 h3 h4 h5 h6, of "zero example_world" "[]"]
  from t have a: "\<exists>tr. newLoader example_world example_options = Some (Some example_loader, tr) \<and>
     filter (\<lambda>ev. case ev of Timestamps t n \<Rightarrow> True | Sleep t \<Rightarrow> True | _ \<Rightarrow> False) tr =
       [Timestamps 1000000000 1, Sleep 1000000000, Timestamps 1000000000 1, Sleep 1000000000,
        Timestamps 1000000000 1]"
    by (simp add: Second_def numeral_2_eq_2)
  have b: "writeTs (st example_loader) = 17"
    by (simp add: example_loader_def)
  have c: "runStages example_world example_loader [ReduceStage, WriteSchema, Cleanup] =
     ([SetPhase ''reducePhase'', GoShuffler, ReducerRun, SchemaWrite ''out/0'',
       DbClose ''out/0'', EndSummary],
      Some (example_loader\<lparr>st := (st example_loader)\<lparr>dbs := [''out/0'']\<rparr>\<rparr>))"
    by (simp add: example_world_def example_loader_def reduceStage_def reduceStage_after_def
        writeSchema_def writeSchema_after_def cleanup_def cleanup_after_def exits_def)
  from t have d: "\<forall>d n. Timestamps d n \<notin>
      set (fst (runStages example_world example_loader [MapStage, ReduceStage, WriteSchema, Cleanup]))"
    by blast
  from a b c d show ?thesis by (intro conjI)
qed

subsection \<open>The map stage without input files\<close>

lemma Walk_no_match:
  assumes "\<forall>p\<in>set visits. \<not> (HasSuffix (fst p) ext \<or> HasSuffix (fst p) (ext @ ''.gz''))"
  shows "snd (Walk visits
             (\<lambda>path err files.
                if err \<noteq> None then (err, files)
                else if HasSuffix path ext \<or> HasSuffix path (ext @ ''.gz'')
                  then (None, files @ [path])
                  else (None, files))
             files) = files"
  using assms
proof (induction visits arbitrary: files)
  case Nil
  show ?case by simp
next
  case (Cons v visits)
  obtain path err where v: "v = (path, err)" by (cases v) auto
  show ?case
  proof (cases err)
    case None
    with Cons v show ?thesis by simp
  next
    case (Some e)
    with v show ?thesis by simp
  qed
qed

lemma findDataFiles_no_match:
  assumes "\<forall>p\<in>set (walk w dir). \<not> (HasSuffix (fst p) ext \<or> HasSuffix (fst p) (ext @ ''.gz''))"
  shows "findDataFiles w dir ext = Inr [] \<or> (\<exists>e. findDataFiles w dir ext = Inl e)"
  using Walk_no_match [OF assms, of "[]"]
  by (auto simp: findDataFiles_def split: prod.splits option.splits)

text \<open>
  Claim C7. If no path that \<open>filepath.Walk\<close> visits under the input directory ends
  with the extension of the input format, plain or followed by ".gz", then \<open>mapStage\<close>
  ends the process with exit status 1, and no mapper goroutine and no reader goroutine
  has been started before that.
\<close>

theorem no_input_files_exit:
  assumes "dir = (if RDFDir (opt (st ld)) \<noteq> [] then RDFDir (opt (st ld)) else JSONDir (opt (st ld)))"
    and "ext = (if RDFDir (opt (st ld)) \<noteq> [] then ''.rdf'' else ''.json'')"
    and "\<forall>p\<in>set (walk w dir). \<not> (HasSuffix (fst p) ext \<or> HasSuffix (fst p) (ext @ ''.gz''))"
  shows "\<exists>tr. mapStage w ld = tr @ [OsExit 1] \<and> (\<forall>ev\<in>set tr. \<not> starts_goroutine ev)"
proof -
  from findDataFiles_no_match [OF assms(3)]
  consider (none) "findDataFiles w dir ext = Inr []" | (failed) e where "findDataFiles w dir ext = Inl e"
    by blast
  then show ?thesis
  proof cases
    case none
    then show ?thesis
      unfolding assms(1,2)
      by (auto simp: mapStage_def Let_def Check_def starts_goroutine_def split: option.splits)
  next
    case failed
    then show ?thesis
      unfolding assms(1,2)
      by (auto simp: mapStage_def Let_def Check_def starts_goroutine_def split: option.splits)
  qed
qed

theorem no_input_files_exit_witness:
  "mapStage example_world example_loader =
   [SetPhase ''mapPhase'', Mkdir ''tmp/xids'', BadgerOpen ''tmp/xids'', XidmapNew,
    FilepathWalk ''data'', Printf ''No *%s files found.\<newline>'', OsExit 1]"
  using no_input_files_exit [of "''data''" example_loader "''.rdf''" example_world]
  by (simp add: example_world_def example_loader_def example_options_def mapStage_def
      findDataFiles_def HasSuffix_def Let_def)

end
